theory Spec2Isabelle
  imports Main "HOL-Library.Word"
begin

section \<open>The reference-counted handle graph of rclpy\_common/src/handle.c\<close>

text \<open>
  The C file keeps handle records and dependency arrays on the heap and links them by raw
  pointers, so the model is an explicit store. A pointer is an address, \<open>NULL\<close> is the
  address 0. \<open>size_t\<close> is a 64-bit word (increments and decrements wrap as in C) and a
  pointer occupies 8 bytes, the LP64 layout. The four functions on handles are modelled;
  the three capsule functions only pass a handle to them through the Python C API and are
  left out.
\<close>

type_synonym addr = nat

abbreviation NULL :: addr where
  "NULL \<equiv> 0"

type_synonym size_t = "64 word"

text \<open>\<open>struct rclpy_handle_t\<close>, field by field.\<close>

record rclpy_handle_t =
  ptr :: addr
  ref_count :: size_t
  dependencies :: addr
  num_of_dependencies :: size_t
  destructor :: addr

text \<open>
  What the outside world observes: a call of a destructor callback with its argument, and
  a call of the allocator's \<open>deallocate\<close> with its argument.
\<close>

datatype event = Destructor_call addr addr | Deallocate addr

text \<open>
  The store: handle records by address, dependency arrays by address, and the
  log of the observable calls made so far. A slot of an array is \<open>None\<close> while it
  is uninitialised (memory obtained by \<open>reallocate\<close> and not yet written).
\<close>

record memory =
  handles :: "addr \<rightharpoonup> rclpy_handle_t"
  arrays :: "addr \<rightharpoonup> addr option list"
  trace :: "event list"

text \<open>
  \<open>Abort\<close> is a failed \<open>assert\<close> (the asserts are taken as compiled in).
  \<open>Undefined_behaviour\<close> is an access through a
  pointer that is neither \<open>NULL\<close> nor the address of a live object, an access outside an
  array, a read of an uninitialised slot, or a deallocation of something not allocated.
\<close>

datatype fault = Abort | Undefined_behaviour

datatype rcutils_ret_t = RCUTILS_RET_OK | RCUTILS_RET_ERROR

subsection \<open>The allocator\<close>

text \<open>
  \<open>rcutils_get_default_allocator\<close> is not part of the file. Each call takes the answer of
  the allocator as its first argument: the address it returns, \<open>NULL\<close> when it fails.
  The answer is taken as it comes; that it is an address not in use is a hypothesis of the
  statements that need it.
\<close>

definition zero_handle :: rclpy_handle_t where
  "zero_handle = \<lparr>ptr = NULL, ref_count = 0, dependencies = NULL,
     num_of_dependencies = 0, destructor = NULL\<rparr>"

definition zero_allocate :: "addr \<Rightarrow> memory \<Rightarrow> addr \<times> memory" where
  "zero_allocate answer s =
     (if answer = NULL then (NULL, s)
      else (answer, s\<lparr>handles := (handles s)(answer \<mapsto> zero_handle)\<rparr>))"

text \<open>
  \<open>reallocate old nbytes\<close>: on failure the old block is untouched. On success the new
  block has room for \<open>nbytes div 8\<close> pointers, starts with the old contents, and the old
  block is gone. A request of zero bytes is implementation-defined in C and is treated as
  undefined here, as is a reallocation of a block that is not allocated.
\<close>

definition reallocate :: "addr \<Rightarrow> addr \<Rightarrow> size_t \<Rightarrow> memory \<Rightarrow> fault + (addr \<times> memory)" where
  "reallocate answer old nbytes s =
     (if nbytes = 0 then Inl Undefined_behaviour
      else if answer = NULL then Inr (NULL, s)
      else if old \<noteq> NULL \<and> arrays s old = None then Inl Undefined_behaviour
      else
        let contents = (if old = NULL then [] else the (arrays s old));
            rest = (if old = NULL then arrays s else (arrays s)(old := None));
            cap = unat nbytes div 8;
            blk = take cap contents @ replicate (cap - length contents) None
        in Inr (answer, s\<lparr>arrays := rest(answer \<mapsto> blk)\<rparr>))"

definition deallocate_array :: "addr \<Rightarrow> memory \<Rightarrow> fault + memory" where
  "deallocate_array a s =
     (if a = NULL then Inr (s\<lparr>trace := trace s @ [Deallocate a]\<rparr>)
      else if arrays s a = None then Inl Undefined_behaviour
      else Inr (s\<lparr>arrays := (arrays s)(a := None), trace := trace s @ [Deallocate a]\<rparr>))"

definition deallocate_handle :: "addr \<Rightarrow> memory \<Rightarrow> fault + memory" where
  "deallocate_handle a s =
     (if a = NULL then Inr (s\<lparr>trace := trace s @ [Deallocate a]\<rparr>)
      else if handles s a = None then Inl Undefined_behaviour
      else Inr (s\<lparr>handles := (handles s)(a := None), trace := trace s @ [Deallocate a]\<rparr>))"

subsection \<open>The operations\<close>

text \<open>
  \<open>_rclpy_create_handle\<close> (the leading underscore of the C names is dropped). The two
  asserts come before the allocation.
\<close>

definition rclpy_create_handle :: "addr \<Rightarrow> addr \<Rightarrow> addr \<Rightarrow> memory \<Rightarrow> fault + (addr \<times> memory)" where
  "rclpy_create_handle answer p d s =
     (if p = NULL then Inl Abort
      else if d = NULL then Inl Abort
      else
        let (handle, s1) = zero_allocate answer s in
        if handle = NULL then Inr (NULL, s1)
        else
          (case handles s1 handle of
             None \<Rightarrow> Inl Undefined_behaviour
           | Some H \<Rightarrow>
               let H1 = H\<lparr>ptr := p\<rparr>;
                   H2 = H1\<lparr>ref_count := ref_count H1 + 1\<rparr>;
                   H3 = H2\<lparr>destructor := d\<rparr>
               in Inr (handle, s1\<lparr>handles := (handles s1)(handle \<mapsto> H3)\<rparr>)))"

text \<open>
  \<open>_rclpy_handle_add_dependency\<close>. The three stores after the reallocation are made one
  after the other on the store, so that \<open>dependent = dependency\<close> is covered: the
  reference count is read again after \<open>dependent\<close> has been written.
\<close>

definition rclpy_handle_add_dependency ::
  "addr \<Rightarrow> addr \<Rightarrow> addr \<Rightarrow> memory \<Rightarrow> fault + (rcutils_ret_t \<times> memory)" where
  "rclpy_handle_add_dependency answer dependent dependency s =
     (if dependent = NULL then Inl Abort
      else if dependency = NULL then Inl Abort
      else
        (case handles s dependent of
           None \<Rightarrow> Inl Undefined_behaviour
         | Some D \<Rightarrow>
             (case reallocate answer (dependencies D) ((num_of_dependencies D + 1) * 8) s of
                Inl f \<Rightarrow> Inl f
              | Inr (new_dependencies, s1) \<Rightarrow>
                  if new_dependencies = NULL then Inr (RCUTILS_RET_ERROR, s1)
                  else
                    (case arrays s1 new_dependencies of
                       None \<Rightarrow> Inl Undefined_behaviour
                     | Some blk \<Rightarrow>
                         if unat (num_of_dependencies D) < length blk then
                           let s2 = s1\<lparr>arrays := (arrays s1)(new_dependencies \<mapsto>
                                      blk[unat (num_of_dependencies D) := Some dependency])\<rparr>;
                               D1 = D\<lparr>num_of_dependencies := num_of_dependencies D + 1\<rparr>;
                               D2 = D1\<lparr>dependencies := new_dependencies\<rparr>;
                               s3 = s2\<lparr>handles := (handles s2)(dependent \<mapsto> D2)\<rparr>
                           in (case handles s3 dependency of
                                 None \<Rightarrow> Inl Undefined_behaviour
                               | Some Y \<Rightarrow>
                                   Inr (RCUTILS_RET_OK,
                                     s3\<lparr>handles := (handles s3)(dependency \<mapsto>
                                           Y\<lparr>ref_count := ref_count Y + 1\<rparr>)\<rparr>))
                         else Inl Undefined_behaviour))))"

text \<open>The condition of the assert in \<open>_rclpy_handle_dec_ref\<close>.\<close>

definition deps_consistent :: "rclpy_handle_t \<Rightarrow> bool" where
  "deps_consistent H \<longleftrightarrow>
     (0 \<noteq> num_of_dependencies H \<and> NULL \<noteq> dependencies H) \<or>
     (0 = num_of_dependencies H \<and> NULL = dependencies H)"

text \<open>
  \<open>if (handle->destructor) handle->destructor(handle->ptr)\<close>: the callback is outside
  the file and, by its contract, does not touch the graph; the call is logged.
\<close>

definition call_destructor :: "rclpy_handle_t \<Rightarrow> memory \<Rightarrow> memory" where
  "call_destructor H s =
     (if destructor H \<noteq> NULL
      then s\<lparr>trace := trace s @ [Destructor_call (destructor H) (ptr H)]\<rparr>
      else s)"

text \<open>
  \<open>_rclpy_handle_dec_ref\<close> and its \<open>for\<close> loop. The recursion follows pointers in the
  store and need not end, so both take fuel: \<open>None\<close> means that the fuel ran out.
  The loop reads \<open>handle->num_of_dependencies\<close> and \<open>handle->dependencies[i]\<close> from the
  store in every round, as the C code does.
\<close>

fun rclpy_handle_dec_ref :: "nat \<Rightarrow> addr \<Rightarrow> memory \<Rightarrow> (fault + memory) option"
  and dec_ref_loop :: "nat \<Rightarrow> addr \<Rightarrow> size_t \<Rightarrow> memory \<Rightarrow> (fault + memory) option" where
  "rclpy_handle_dec_ref 0 handle s = None"
| "rclpy_handle_dec_ref (Suc n) handle s =
     (if handle = NULL then Some (Inr s)
      else
        (case handles s handle of
           None \<Rightarrow> Some (Inl Undefined_behaviour)
         | Some H \<Rightarrow>
             if \<not> deps_consistent H then Some (Inl Abort)
             else
               let H1 = H\<lparr>ref_count := ref_count H - 1\<rparr>;
                   s1 = s\<lparr>handles := (handles s)(handle \<mapsto> H1)\<rparr>
               in if ref_count H1 = 0 then
                    let s2 = call_destructor H1 s1
                    in (case dec_ref_loop n handle 0 s2 of
                          None \<Rightarrow> None
                        | Some (Inl f) \<Rightarrow> Some (Inl f)
                        | Some (Inr s3) \<Rightarrow>
                            (case handles s3 handle of
                               None \<Rightarrow> Some (Inl Undefined_behaviour)
                             | Some H3 \<Rightarrow>
                                 (case deallocate_array (dependencies H3) s3 of
                                    Inl f \<Rightarrow> Some (Inl f)
                                  | Inr s4 \<Rightarrow> Some (deallocate_handle handle s4))))
                  else Some (Inr s1)))"
| "dec_ref_loop 0 handle i s = None"
| "dec_ref_loop (Suc n) handle i s =
     (case handles s handle of
        None \<Rightarrow> Some (Inl Undefined_behaviour)
      | Some H \<Rightarrow>
          if i < num_of_dependencies H then
            (case arrays s (dependencies H) of
               None \<Rightarrow> Some (Inl Undefined_behaviour)
             | Some blk \<Rightarrow>
                 if unat i < length blk then
                   (case blk ! unat i of
                      None \<Rightarrow> Some (Inl Undefined_behaviour)
                    | Some d \<Rightarrow>
                        (case rclpy_handle_dec_ref n d s of
                           None \<Rightarrow> None
                         | Some (Inl f) \<Rightarrow> Some (Inl f)
                         | Some (Inr s1) \<Rightarrow> dec_ref_loop n handle (i + 1) s1))
                 else Some (Inl Undefined_behaviour))
          else Some (Inr s))"

text \<open>\<open>_rclpy_handle_get_pointer\<close>.\<close>

definition rclpy_handle_get_pointer :: "addr \<Rightarrow> memory \<Rightarrow> fault + addr" where
  "rclpy_handle_get_pointer handle s =
     (if handle = NULL then Inr NULL
      else (case handles s handle of
              None \<Rightarrow> Inl Undefined_behaviour
            | Some H \<Rightarrow> Inr (ptr H)))"

subsection \<open>Notions used in the statements\<close>

text \<open>
  The dependency sequence of a handle: the first \<open>num_of_dependencies\<close> slots of the array
  behind \<open>dependencies\<close>, empty when that pointer is \<open>NULL\<close>.
\<close>

definition dependency_seq :: "memory \<Rightarrow> addr \<Rightarrow> addr option list" where
  "dependency_seq s h =
     (case handles s h of
        None \<Rightarrow> []
      | Some H \<Rightarrow>
          if dependencies H = NULL then []
          else (case arrays s (dependencies H) of
                  None \<Rightarrow> []
                | Some blk \<Rightarrow> take (unat (num_of_dependencies H)) blk))"

text \<open>
  A live handle: a non-null pointer to an allocated record that passes the assert of
  \<open>_rclpy_handle_dec_ref\<close> and whose array, when it has one, is allocated with exactly
  \<open>num_of_dependencies\<close> slots.
\<close>

definition live :: "memory \<Rightarrow> addr \<Rightarrow> bool" where
  "live s h \<longleftrightarrow>
     h \<noteq> NULL \<and>
     (case handles s h of
        None \<Rightarrow> False
      | Some H \<Rightarrow>
          deps_consistent H \<and>
          (dependencies H \<noteq> NULL \<longrightarrow>
             (case arrays s (dependencies H) of
                None \<Rightarrow> False
              | Some blk \<Rightarrow> length blk = unat (num_of_dependencies H))))"

text \<open>
  The store after a successful \<open>_rclpy_handle_add_dependency\<close>: the array of the
  dependent, \<open>blk\<close> before the call, now lives at the allocator's answer with the
  dependency appended; the dependent's record counts one more entry and points to it; the
  reference count of the dependency, read after that write, is one higher.
\<close>

definition added :: "addr \<Rightarrow> addr \<Rightarrow> addr \<Rightarrow> rclpy_handle_t \<Rightarrow> addr option list \<Rightarrow> memory \<Rightarrow> memory" where
  "added answer dependent dependency D blk s =
     (let s2 = s\<lparr>arrays := (if dependencies D = NULL then arrays s
                              else (arrays s)(dependencies D := None))
                            (answer \<mapsto> blk @ [Some dependency])\<rparr>;
          s3 = s2\<lparr>handles := (handles s2)(dependent \<mapsto>
                  D\<lparr>num_of_dependencies := num_of_dependencies D + 1, dependencies := answer\<rparr>)\<rparr>
      in s3\<lparr>handles := (handles s3)(dependency \<mapsto>
              (the (handles s3 dependency))\<lparr>ref_count := ref_count (the (handles s3 dependency)) + 1\<rparr>)\<rparr>)"

text \<open>The assert of \<open>_rclpy_handle_dec_ref\<close> holds for every allocated record.\<close>

definition all_consistent :: "memory \<Rightarrow> bool" where
  "all_consistent s \<longleftrightarrow> (\<forall>h H. handles s h = Some H \<longrightarrow> deps_consistent H)"

text \<open>
  Releasing the entries of a sequence one after the other, first to last, each release
  starting in the store the previous one left.
\<close>

fun release_each :: "nat \<Rightarrow> addr list \<Rightarrow> memory \<Rightarrow> (fault + memory) option" where
  "release_each n [] s = Some (Inr s)"
| "release_each n (d # ds) s =
     (case rclpy_handle_dec_ref n d s of
        None \<Rightarrow> None
      | Some (Inl f) \<Rightarrow> Some (Inl f)
      | Some (Inr s1) \<Rightarrow> release_each n ds s1)"

text \<open>
  Well-formed stores. Two functions that the code does not keep describe who holds the
  references: \<open>own h\<close> is the number of references to \<open>h\<close> held from outside the graph
  (by the creator of the handle or its capsule), and \<open>rk\<close> ranks the handles so that every
  dependency ranks below its dependent, which says that the graph has no cycle. A third,
  \<open>dn h\<close>, is the number of leading entries of the sequence of \<open>h\<close> that a teardown in
  progress has already given back; it is 0 everywhere when no teardown is in progress.
\<close>

text \<open>The entries of \<open>h\<close> that still hold a reference.\<close>

definition active :: "memory \<Rightarrow> (addr \<Rightarrow> nat) \<Rightarrow> addr \<Rightarrow> addr option list" where
  "active s dn h = drop (dn h) (dependency_seq s h)"

text \<open>The number of references to \<open>y\<close> held by entries of allocated handles.\<close>

definition incoming :: "memory \<Rightarrow> (addr \<Rightarrow> nat) \<Rightarrow> addr \<Rightarrow> nat" where
  "incoming s dn y = (\<Sum>h \<in> dom (handles s). count_list (active s dn h) (Some y))"

text \<open>
  An allocated record is in order when its address is not \<open>NULL\<close>, the assert of
  \<open>_rclpy_handle_dec_ref\<close> holds, its array is allocated with exactly
  \<open>num_of_dependencies\<close> slots, no entry has been given back unless the count is 0, the
  count covers the outside owners and the entries that refer to it, every entry is a
  handle of lower rank, and every entry that still holds a reference refers to an
  allocated handle.
\<close>

definition handle_ok ::
  "(addr \<Rightarrow> nat) \<Rightarrow> (addr \<Rightarrow> nat) \<Rightarrow> (addr \<Rightarrow> nat) \<Rightarrow> memory \<Rightarrow> addr \<Rightarrow> rclpy_handle_t \<Rightarrow> bool" where
  "handle_ok own rk dn s h H \<longleftrightarrow>
     h \<noteq> NULL \<and> deps_consistent H \<and>
     (dependencies H \<noteq> NULL \<longrightarrow>
        (\<exists>blk. arrays s (dependencies H) = Some blk \<and> length blk = unat (num_of_dependencies H))) \<and>
     (ref_count H \<noteq> 0 \<longrightarrow> dn h = 0) \<and>
     own h + incoming s dn h \<le> unat (ref_count H) \<and>
     (\<forall>e \<in> set (dependency_seq s h). \<exists>d. e = Some d \<and> rk d < rk h) \<and>
     (\<forall>e \<in> set (active s dn h). \<exists>d. e = Some d \<and> d \<in> dom (handles s))"

text \<open>No two allocated handles use the same array.\<close>

definition unshared :: "memory \<Rightarrow> bool" where
  "unshared s \<longleftrightarrow>
     (\<forall>h h' H H'. handles s h = Some H \<longrightarrow> handles s h' = Some H' \<longrightarrow> h \<noteq> h' \<longrightarrow>
        dependencies H \<noteq> NULL \<longrightarrow> dependencies H \<noteq> dependencies H')"

definition well_formed :: "(addr \<Rightarrow> nat) \<Rightarrow> (addr \<Rightarrow> nat) \<Rightarrow> (addr \<Rightarrow> nat) \<Rightarrow> memory \<Rightarrow> bool" where
  "well_formed own rk dn s \<longleftrightarrow>
     finite (dom (handles s)) \<and>
     (\<forall>h H. handles s h = Some H \<longrightarrow> handle_ok own rk dn s h H) \<and>
     unshared s"

subsection \<open>Notions used in the proofs\<close>

text \<open>
  The store in which the loop of a teardown starts: the count is written back as 0 and
  the destructor has been called.
\<close>

definition begin_teardown :: "addr \<Rightarrow> rclpy_handle_t \<Rightarrow> memory \<Rightarrow> memory" where
  "begin_teardown h H s =
     call_destructor (H\<lparr>ref_count := 0\<rparr>) (s\<lparr>handles := (handles s)(h \<mapsto> H\<lparr>ref_count := 0\<rparr>)\<rparr>)"

text \<open>The slots the loop of a handle has still to visit when its index is \<open>i\<close>.\<close>

definition pending :: "memory \<Rightarrow> rclpy_handle_t \<Rightarrow> size_t \<Rightarrow> addr option list" where
  "pending s H i =
     (if i < num_of_dependencies H then
        (case arrays s (dependencies H) of
           None \<Rightarrow> []
         | Some blk \<Rightarrow> drop (unat i) (take (unat (num_of_dependencies H)) blk))
      else [])"

text \<open>
  What a release can do to a store: records and arrays only disappear, a record that stays
  differs at most in its \<open>ref_count\<close>, an array that stays is unchanged, and the log only
  grows.
\<close>

definition shrinks :: "memory \<Rightarrow> memory \<Rightarrow> bool" where
  "shrinks s s' \<longleftrightarrow>
     (\<forall>y H'. handles s' y = Some H' \<longrightarrow>
        (\<exists>H c. handles s y = Some H \<and> H' = H\<lparr>ref_count := c\<rparr>)) \<and>
     (\<forall>a blk. arrays s' a = Some blk \<longrightarrow> arrays s a = Some blk) \<and>
     (\<exists>t. trace s' = trace s @ t)"

text \<open>A release has left the record of \<open>y\<close> and its array as they were.\<close>

definition untouched :: "memory \<Rightarrow> memory \<Rightarrow> addr \<Rightarrow> bool" where
  "untouched s s' y \<longleftrightarrow>
     handles s' y = handles s y \<and>
     (\<forall>Y. handles s y = Some Y \<longrightarrow> dependencies Y \<noteq> NULL \<longrightarrow>
        arrays s' (dependencies Y) = arrays s (dependencies Y))"

text \<open>
  In every well-formed store where somebody outside owns a reference to \<open>h\<close>, the release
  of \<open>h\<close> returns normally with enough fuel, the store stays well-formed with one owner
  less, and no handle of the same or a higher rank is touched.
\<close>

definition release_ok :: "(addr \<Rightarrow> nat) \<Rightarrow> addr \<Rightarrow> bool" where
  "release_ok rk h \<longleftrightarrow>
     (\<forall>own dn s H. well_formed own rk dn s \<longrightarrow> handles s h = Some H \<longrightarrow> 1 \<le> own h \<longrightarrow>
        (\<exists>n s'. rclpy_handle_dec_ref n h s = Some (Inr s') \<and>
           well_formed (own(h := own h - 1)) rk dn s' \<and>
           (\<forall>y. y \<noteq> h \<longrightarrow> rk h \<le> rk y \<longrightarrow> untouched s s' y)))"

subsection \<open>Concrete stores\<close>

definition empty_memory :: memory where
  "empty_memory = \<lparr>handles = Map.empty, arrays = Map.empty, trace = []\<rparr>"

text \<open>One handle at address 100 for the resource 7 with the destructor 9, as
  \<open>_rclpy_create_handle\<close> leaves it.\<close>

definition one_handle :: memory where
  "one_handle = \<lparr>handles = [100 \<mapsto> \<lparr>ptr = 7, ref_count = 1, dependencies = NULL,
       num_of_dependencies = 0, destructor = 9\<rparr>], arrays = Map.empty, trace = []\<rparr>"

text \<open>The same handle with a second owner.\<close>

definition shared_handle :: memory where
  "shared_handle = \<lparr>handles = [100 \<mapsto> \<lparr>ptr = 7, ref_count = 2, dependencies = NULL,
       num_of_dependencies = 0, destructor = 9\<rparr>], arrays = Map.empty, trace = []\<rparr>"

text \<open>Two unrelated handles, 100 and 200.\<close>

definition two_handles :: memory where
  "two_handles = \<lparr>handles = [100 \<mapsto> \<lparr>ptr = 7, ref_count = 1, dependencies = NULL,
       num_of_dependencies = 0, destructor = 9\<rparr>,
     200 \<mapsto> \<lparr>ptr = 8, ref_count = 1, dependencies = NULL,
       num_of_dependencies = 0, destructor = 9\<rparr>], arrays = Map.empty, trace = []\<rparr>"

text \<open>Handle 100 depends on handle 200 through the array at 300.\<close>

definition linked_handles :: memory where
  "linked_handles = \<lparr>handles = [100 \<mapsto> \<lparr>ptr = 7, ref_count = 1, dependencies = 300,
       num_of_dependencies = 1, destructor = 9\<rparr>,
     200 \<mapsto> \<lparr>ptr = 8, ref_count = 2, dependencies = NULL,
       num_of_dependencies = 0, destructor = 9\<rparr>], arrays = [300 \<mapsto> [Some 200]], trace = []\<rparr>"

text \<open>Handle 100 depends on itself.\<close>

definition self_linked :: memory where
  "self_linked = \<lparr>handles = [100 \<mapsto> \<lparr>ptr = 7, ref_count = 2, dependencies = 300,
       num_of_dependencies = 1, destructor = 9\<rparr>], arrays = [300 \<mapsto> [Some 100]], trace = []\<rparr>"

text \<open>\<open>linked_handles\<close> after the release of handle 100.\<close>

definition released_dependent :: memory where
  "released_dependent = \<lparr>handles = [200 \<mapsto> \<lparr>ptr = 8, ref_count = 1, dependencies = NULL,
       num_of_dependencies = 0, destructor = 9\<rparr>], arrays = Map.empty,
     trace = [Destructor_call 9 7, Deallocate 300, Deallocate 100]\<rparr>"

text \<open>
  The diamond: handles 100, 200 and 300 for the resources 7, 8, 9 with the destructors 17,
  18, 19; 100 and 200 both depend on 300, through the arrays at 400 and 500. The stores
  are those after each call, in the order of the names.
\<close>

definition diamond_a :: memory where
  "diamond_a = \<lparr>handles = [100 \<mapsto> \<lparr>ptr = 7, ref_count = 1, dependencies = NULL, num_of_dependencies = 0, destructor = 17\<rparr>],
     arrays = Map.empty,
     trace = []\<rparr>"

definition diamond_ab :: memory where
  "diamond_ab = \<lparr>handles = [100 \<mapsto> \<lparr>ptr = 7, ref_count = 1, dependencies = NULL, num_of_dependencies = 0, destructor = 17\<rparr>,
       200 \<mapsto> \<lparr>ptr = 8, ref_count = 1, dependencies = NULL, num_of_dependencies = 0, destructor = 18\<rparr>],
     arrays = Map.empty,
     trace = []\<rparr>"

definition diamond_abc :: memory where
  "diamond_abc = \<lparr>handles = [100 \<mapsto> \<lparr>ptr = 7, ref_count = 1, dependencies = NULL, num_of_dependencies = 0, destructor = 17\<rparr>,
       200 \<mapsto> \<lparr>ptr = 8, ref_count = 1, dependencies = NULL, num_of_dependencies = 0, destructor = 18\<rparr>,
       300 \<mapsto> \<lparr>ptr = 9, ref_count = 1, dependencies = NULL, num_of_dependencies = 0, destructor = 19\<rparr>],
     arrays = Map.empty,
     trace = []\<rparr>"

definition diamond_ac :: memory where
  "diamond_ac = \<lparr>handles = [100 \<mapsto> \<lparr>ptr = 7, ref_count = 1, dependencies = 400, num_of_dependencies = 1, destructor = 17\<rparr>,
       200 \<mapsto> \<lparr>ptr = 8, ref_count = 1, dependencies = NULL, num_of_dependencies = 0, destructor = 18\<rparr>,
       300 \<mapsto> \<lparr>ptr = 9, ref_count = 2, dependencies = NULL, num_of_dependencies = 0, destructor = 19\<rparr>],
     arrays = [400 \<mapsto> [Some 300]],
     trace = []\<rparr>"

definition diamond_linked :: memory where
  "diamond_linked = \<lparr>handles = [100 \<mapsto> \<lparr>ptr = 7, ref_count = 1, dependencies = 400, num_of_dependencies = 1, destructor = 17\<rparr>,
       200 \<mapsto> \<lparr>ptr = 8, ref_count = 1, dependencies = 500, num_of_dependencies = 1, destructor = 18\<rparr>,
       300 \<mapsto> \<lparr>ptr = 9, ref_count = 3, dependencies = NULL, num_of_dependencies = 0, destructor = 19\<rparr>],
     arrays = [400 \<mapsto> [Some 300], 500 \<mapsto> [Some 300]],
     trace = []\<rparr>"

definition diamond_after_a :: memory where
  "diamond_after_a = \<lparr>handles = [200 \<mapsto> \<lparr>ptr = 8, ref_count = 1, dependencies = 500, num_of_dependencies = 1, destructor = 18\<rparr>,
       300 \<mapsto> \<lparr>ptr = 9, ref_count = 2, dependencies = NULL, num_of_dependencies = 0, destructor = 19\<rparr>],
     arrays = [500 \<mapsto> [Some 300]],
     trace = [Destructor_call 17 7, Deallocate 400, Deallocate 100]\<rparr>"

definition diamond_after_ab :: memory where
  "diamond_after_ab = \<lparr>handles = [300 \<mapsto> \<lparr>ptr = 9, ref_count = 1, dependencies = NULL, num_of_dependencies = 0, destructor = 19\<rparr>],
     arrays = Map.empty,
     trace = [Destructor_call 17 7, Deallocate 400, Deallocate 100, Destructor_call 18 8, Deallocate 500, Deallocate 200]\<rparr>"

definition diamond_after_abc :: memory where
  "diamond_after_abc = \<lparr>handles = Map.empty,
     arrays = Map.empty,
     trace = [Destructor_call 17 7, Deallocate 400, Deallocate 100, Destructor_call 18 8, Deallocate 500, Deallocate 200, Destructor_call 19 9, Deallocate NULL, Deallocate 300]\<rparr>"

text \<open>
  Owners and ranks for \<open>linked_handles\<close>: each of the two handles has one outside owner,
  and handle 100 ranks above its dependency 200.
\<close>

definition linked_owners :: "addr \<Rightarrow> nat" where
  "linked_owners x = 1"

definition linked_rank :: "addr \<Rightarrow> nat" where
  "linked_rank x = (if x = 100 then 1 else 0)"

section \<open>Creation\<close>

lemma create_success:
  assumes "p \<noteq> NULL" and "d \<noteq> NULL" and "a \<noteq> NULL"
  shows "rclpy_create_handle a p d s = Inr (a, s\<lparr>handles := (handles s)(a \<mapsto>
           \<lparr>ptr = p, ref_count = 1, dependencies = NULL, num_of_dependencies = 0,
            destructor = d\<rparr>)\<rparr>)"
  using assms
  by (simp add: rclpy_create_handle_def zero_allocate_def zero_handle_def)

text \<open>
  C5. A successful \<open>create(r, d)\<close> with non-null \<open>r\<close> and \<open>d\<close> returns a handle whose
  record has \<open>ref_count = 1\<close>, no dependencies (length 0, no array), the destructor \<open>d\<close>
  and the resource \<open>r\<close>; the log of destructor calls is as before, so \<open>d\<close> has not been
  invoked; and \<open>get_pointer\<close> on the new handle returns \<open>r\<close>.
\<close>

theorem create_handle_ok:
  assumes "p \<noteq> NULL" and "d \<noteq> NULL"
    and "rclpy_create_handle answer p d s = Inr (h, s')" and "h \<noteq> NULL"
  shows "handles s' h = Some \<lparr>ptr = p, ref_count = 1, dependencies = NULL,
            num_of_dependencies = 0, destructor = d\<rparr>
         \<and> dependency_seq s' h = []
         \<and> trace s' = trace s
         \<and> rclpy_handle_get_pointer h s' = Inr p"
  using assms
  by (auto simp: rclpy_create_handle_def zero_allocate_def zero_handle_def
      rclpy_handle_get_pointer_def dependency_seq_def split: if_splits)

theorem create_handle_ok_witness:
  "rclpy_create_handle 100 7 9 empty_memory = Inr (100, one_handle)
   \<and> handles one_handle 100 = Some \<lparr>ptr = 7, ref_count = 1, dependencies = NULL,
        num_of_dependencies = 0, destructor = 9\<rparr>
   \<and> dependency_seq one_handle 100 = []
   \<and> trace one_handle = trace empty_memory
   \<and> rclpy_handle_get_pointer 100 one_handle = Inr 7"
proof -
  have e: "rclpy_create_handle 100 7 9 empty_memory = Inr (100, one_handle)"
    by (simp add: rclpy_create_handle_def zero_allocate_def zero_handle_def
        empty_memory_def one_handle_def)
  have "(7::nat) \<noteq> NULL" and "(9::nat) \<noteq> NULL" and "(100::nat) \<noteq> NULL" by simp_all
  from create_handle_ok[OF this(1) this(2) e this(3)] e show ?thesis by simp
qed

text \<open>
  C6. With non-null arguments \<open>create(r, d)\<close> always returns; the returned pointer is
  \<open>NULL\<close> exactly when the answer of \<open>zero_allocate\<close> is \<open>NULL\<close>, and then the store
  (records, arrays and the log of calls) is the one before the call.
\<close>

theorem create_handle_fails_iff:
  assumes "p \<noteq> NULL" and "d \<noteq> NULL"
  shows "\<exists>h s'. rclpy_create_handle answer p d s = Inr (h, s')
           \<and> (h = NULL \<longleftrightarrow> answer = NULL)
           \<and> (answer = NULL \<longrightarrow> s' = s)"
  using assms
  by (auto simp: rclpy_create_handle_def zero_allocate_def zero_handle_def)

theorem create_handle_fails_iff_witness:
  "\<exists>h s'. rclpy_create_handle NULL 7 9 one_handle = Inr (h, s')
           \<and> (h = NULL \<longleftrightarrow> NULL = NULL)
           \<and> (NULL = NULL \<longrightarrow> s' = one_handle)"
proof -
  have "(7::nat) \<noteq> NULL" and "(9::nat) \<noteq> NULL" by simp_all
  from create_handle_fails_iff[OF this, of NULL one_handle] show ?thesis .
qed

section \<open>Absent handles\<close>

text \<open>
  C7. \<open>release\<close> of the null handle returns at once with the store unchanged (no record,
  array or logged call differs), and \<open>get_pointer\<close> of the null handle returns \<open>NULL\<close>.
\<close>

theorem null_handle_noop:
  "rclpy_handle_dec_ref (Suc n) NULL s = Some (Inr s)
   \<and> rclpy_handle_get_pointer NULL s = Inr NULL"
  by (simp add: rclpy_handle_get_pointer_def)

theorem null_handle_noop_witness:
  "rclpy_handle_dec_ref (Suc 0) NULL one_handle = Some (Inr one_handle)
   \<and> rclpy_handle_get_pointer NULL one_handle = Inr NULL"
  using null_handle_noop[of 0 one_handle] .

section \<open>Release of a shared handle\<close>

lemma unat_minus_one_ge2:
  fixes c :: size_t
  assumes a: "2 \<le> unat c"
  shows "c - 1 \<noteq> 0 \<and> unat (c - 1) = unat c - 1"
proof -
  from a have nz: "c \<noteq> 0" by (auto simp: unat_eq_zero)
  have u: "unat (c - 1) = unat c - 1" using nz by (rule unat_minus_one)
  then have "unat (c - 1) \<noteq> 0" using a by simp
  then have "c - 1 \<noteq> 0" by (simp add: unat_eq_zero)
  with u show ?thesis by simp
qed

text \<open>
  C9. For a live handle with \<open>ref_count \<ge> 2\<close>, \<open>release\<close> returns (with any fuel) the
  store in which that handle's \<open>ref_count\<close> is one less and nothing else differs: the
  other fields of the record, every other record, every array and the log of destructor
  calls and deallocations are as before.
\<close>

theorem dec_ref_shared:
  assumes "h \<noteq> NULL" and "handles s h = Some H" and "deps_consistent H"
    and "2 \<le> unat (ref_count H)"
  shows "rclpy_handle_dec_ref (Suc n) h s =
           Some (Inr (s\<lparr>handles := (handles s)(h \<mapsto> H\<lparr>ref_count := ref_count H - 1\<rparr>)\<rparr>))
         \<and> unat (ref_count H - 1) = unat (ref_count H) - 1"
  using assms unat_minus_one_ge2[of "ref_count H"]
  by (simp add: Let_def)

theorem dec_ref_shared_witness:
  "rclpy_handle_dec_ref (Suc 0) 100 shared_handle = Some (Inr one_handle)"
proof -
  have H: "handles shared_handle 100 = Some \<lparr>ptr = 7, ref_count = 2, dependencies = NULL,
       num_of_dependencies = 0, destructor = 9\<rparr>"
    by (simp add: shared_handle_def)
  have c: "deps_consistent \<lparr>ptr = 7, ref_count = 2, dependencies = NULL,
       num_of_dependencies = 0, destructor = 9\<rparr>"
    by (simp add: deps_consistent_def)
  have g: "2 \<le> unat (ref_count \<lparr>ptr = 7, ref_count = 2 :: size_t, dependencies = NULL,
       num_of_dependencies = 0 :: size_t, destructor = 9\<rparr>)"
    by simp
  have "(100::nat) \<noteq> NULL" by simp
  from dec_ref_shared[OF this H c g, of 0] show ?thesis
    by (simp add: shared_handle_def one_handle_def)
qed

section \<open>Adding a dependency\<close>

text \<open>
  The size handed to \<open>reallocate\<close> is \<open>(num_of_dependencies + 1) * 8\<close> in 64-bit
  arithmetic. When the exact product fits, it is non-zero and buys one more slot.
\<close>

lemma size_no_wrap:
  fixes n :: size_t
  assumes "8 * (unat n + 1) < 2 ^ 64"
  shows "(n + 1) * 8 \<noteq> 0" and "unat ((n + 1) * 8) div 8 = unat n + 1"
    and "unat (n + 1) = unat n + 1" and "n + 1 \<noteq> 0"
proof -
  have a: "unat n + unat (1 :: size_t) < 2 ^ LENGTH(64)" using assms by simp
  have u1: "unat (n + 1) = unat n + 1"
    using a unat_add_lem[of n 1] by simp
  have b: "unat (n + 1) * unat (8 :: size_t) < 2 ^ LENGTH(64)" using assms u1 by simp
  have u2: "unat ((n + 1) * 8) = unat (n + 1) * 8"
    using b unat_mult_lem[of "n + 1" 8] by simp
  show "unat (n + 1) = unat n + 1" by (rule u1)
  show "unat ((n + 1) * 8) div 8 = unat n + 1" using u1 u2 by simp
  have "unat ((n + 1) * 8) \<noteq> 0" using u1 u2 by simp
  then show "(n + 1) * 8 \<noteq> 0" by (simp add: unat_eq_zero)
  have "unat (n + 1) \<noteq> 0" using u1 by simp
  then show "n + 1 \<noteq> 0" by (simp add: unat_eq_zero)
qed

lemma add_dependency_null_answer:
  assumes "dependent \<noteq> NULL" and "dependency \<noteq> NULL"
    and "handles s dependent = Some D"
    and "8 * (unat (num_of_dependencies D) + 1) < 2 ^ 64"
  shows "rclpy_handle_add_dependency NULL dependent dependency s = Inr (RCUTILS_RET_ERROR, s)"
  using assms size_no_wrap(1)[OF assms(4)]
  by (simp add: rclpy_handle_add_dependency_def reallocate_def)

lemma add_dependency_success:
  assumes nn: "dependent \<noteq> NULL" "dependency \<noteq> NULL" "answer \<noteq> NULL"
    and D: "handles s dependent = Some D" and Y: "handles s dependency = Some Y"
    and blk: "if dependencies D = NULL then blk = []
              else arrays s (dependencies D) = Some blk"
    and len: "length blk = unat (num_of_dependencies D)"
    and size: "8 * (unat (num_of_dependencies D) + 1) < 2 ^ 64"
  shows "rclpy_handle_add_dependency answer dependent dependency s =
           Inr (RCUTILS_RET_OK, added answer dependent dependency D blk s)"
proof -
  note sz = size_no_wrap[OF size]
  have r: "reallocate answer (dependencies D) ((num_of_dependencies D + 1) * 8) s =
        Inr (answer, s\<lparr>arrays := (if dependencies D = NULL then arrays s
                              else (arrays s)(dependencies D := None))
                            (answer \<mapsto> blk @ [None])\<rparr>)"
    using nn blk len sz by (auto simp: reallocate_def Let_def)
  have w: "(blk @ [None])[unat (num_of_dependencies D) := Some dependency] =
      blk @ [Some dependency]"
    using len[symmetric] by simp
  show ?thesis
    unfolding rclpy_handle_add_dependency_def
    apply (simp only: nn D if_False option.case r sum.case prod.case)
    using nn D Y len[symmetric]
    apply (auto simp: added_def Let_def w)
    done
qed

lemma dependency_seq_added:
  assumes "answer \<noteq> NULL" and "handles s dependent = Some D"
    and "if dependencies D = NULL then blk = [] else arrays s (dependencies D) = Some blk"
    and "length blk = unat (num_of_dependencies D)"
    and "8 * (unat (num_of_dependencies D) + 1) < 2 ^ 64"
  shows "dependency_seq (added answer dependent dependency D blk s) dependent =
           dependency_seq s dependent @ [Some dependency]"
  using assms size_no_wrap(3)[OF assms(5)]
  by (auto simp: dependency_seq_def added_def Let_def split: if_splits)

lemma ref_count_added:
  assumes "handles s dependent = Some D" and "handles s dependency = Some Y"
  shows "\<exists>Y'. handles (added answer dependent dependency D blk s) dependency = Some Y'
           \<and> ref_count Y' = ref_count Y + 1"
  using assms by (auto simp: added_def Let_def)

lemma live_blk:
  assumes "live s h" and "handles s h = Some D"
  shows "\<exists>blk. (if dependencies D = NULL then blk = [] else arrays s (dependencies D) = Some blk)
           \<and> length blk = unat (num_of_dependencies D)"
  using assms by (auto simp: live_def deps_consistent_def split: option.splits)

lemma live_two_handles: "live two_handles 100" "live two_handles 200"
  by (simp_all add: live_def two_handles_def deps_consistent_def)

lemma live_one_handle: "live one_handle 100"
  by (simp add: live_def one_handle_def deps_consistent_def)

text \<open>
  C2. For live handles \<open>dependent\<close> and \<open>dependency\<close> (the grown array's size in bytes
  fitting \<open>size_t\<close>), when the allocator's \<open>reallocate\<close> answers \<open>NULL\<close> the call returns
  \<open>RCUTILS_RET_ERROR\<close> and the store is exactly the one before the call: the dependent's
  sequence, its length and the dependency's \<open>ref_count\<close> included.
\<close>

theorem add_dependency_failure_unchanged:
  assumes "live s dependent" and "live s dependency"
    and "handles s dependent = Some D"
    and "8 * (unat (num_of_dependencies D) + 1) < 2 ^ 64"
  shows "rclpy_handle_add_dependency NULL dependent dependency s = Inr (RCUTILS_RET_ERROR, s)"
proof -
  from assms(1,2) have "dependent \<noteq> NULL" and "dependency \<noteq> NULL"
    by (simp_all add: live_def)
  then show ?thesis using assms(3,4) by (rule add_dependency_null_answer)
qed

theorem add_dependency_failure_unchanged_witness:
  "rclpy_handle_add_dependency NULL 100 200 two_handles = Inr (RCUTILS_RET_ERROR, two_handles)"
proof -
  have D: "handles two_handles 100 = Some \<lparr>ptr = 7, ref_count = 1, dependencies = NULL,
       num_of_dependencies = 0, destructor = 9\<rparr>"
    by (simp add: two_handles_def)
  have sz: "8 * (unat (num_of_dependencies \<lparr>ptr = 7, ref_count = 1 :: size_t, dependencies = NULL,
       num_of_dependencies = 0 :: size_t, destructor = 9\<rparr>) + 1) < (2 :: nat) ^ 64"
    by simp
  from add_dependency_failure_unchanged[OF live_two_handles D sz] show ?thesis .
qed

text \<open>
  C4. For live handles \<open>dependent\<close> and \<open>dependency\<close> (the grown array's size in bytes
  fitting \<open>size_t\<close>): when \<open>reallocate\<close> succeeds the call returns \<open>RCUTILS_RET_OK\<close>, the
  dependent's sequence is the old one with \<open>dependency\<close> appended as last element, its
  length is one more, and the dependency's \<open>ref_count\<close> is the old one plus 1 (in
  \<open>size_t\<close> arithmetic); when \<open>reallocate\<close> fails neither happens, the store is unchanged.
\<close>

theorem add_dependency_effects:
  assumes "live s dependent" and "live s dependency"
    and D: "handles s dependent = Some D" and Y: "handles s dependency = Some Y"
    and size: "8 * (unat (num_of_dependencies D) + 1) < 2 ^ 64"
  shows "(answer \<noteq> NULL \<longrightarrow>
           (\<exists>s' D' Y'. rclpy_handle_add_dependency answer dependent dependency s =
                Inr (RCUTILS_RET_OK, s')
              \<and> dependency_seq s' dependent = dependency_seq s dependent @ [Some dependency]
              \<and> handles s' dependent = Some D'
              \<and> unat (num_of_dependencies D') = unat (num_of_dependencies D) + 1
              \<and> handles s' dependency = Some Y'
              \<and> ref_count Y' = ref_count Y + 1))
         \<and> (answer = NULL \<longrightarrow>
              rclpy_handle_add_dependency answer dependent dependency s =
                Inr (RCUTILS_RET_ERROR, s))"
proof (intro conjI impI)
  from assms(1,2) have nn: "dependent \<noteq> NULL" "dependency \<noteq> NULL"
    by (simp_all add: live_def)
  {
    assume "answer = NULL"
    then show "rclpy_handle_add_dependency answer dependent dependency s =
                Inr (RCUTILS_RET_ERROR, s)"
      using add_dependency_null_answer[OF nn D size] by simp
  }
  assume a: "answer \<noteq> NULL"
  from live_blk[OF assms(1) D] obtain blk where
    blk: "if dependencies D = NULL then blk = [] else arrays s (dependencies D) = Some blk"
    and len: "length blk = unat (num_of_dependencies D)" by blast
  let ?s' = "added answer dependent dependency D blk s"
  have r: "rclpy_handle_add_dependency answer dependent dependency s = Inr (RCUTILS_RET_OK, ?s')"
    by (rule add_dependency_success[OF nn a D Y blk len size])
  have q: "dependency_seq ?s' dependent = dependency_seq s dependent @ [Some dependency]"
    by (rule dependency_seq_added[OF a D blk len size])
  from ref_count_added[OF D Y, of answer blk] obtain Y' where
    Y': "handles ?s' dependency = Some Y'" "ref_count Y' = ref_count Y + 1" by blast
  have "\<exists>D'. handles ?s' dependent = Some D'
          \<and> unat (num_of_dependencies D') = unat (num_of_dependencies D) + 1"
    using D size_no_wrap(3)[OF size] by (auto simp: added_def Let_def)
  with r q Y' show "\<exists>s' D' Y'. rclpy_handle_add_dependency answer dependent dependency s =
                Inr (RCUTILS_RET_OK, s')
              \<and> dependency_seq s' dependent = dependency_seq s dependent @ [Some dependency]
              \<and> handles s' dependent = Some D'
              \<and> unat (num_of_dependencies D') = unat (num_of_dependencies D) + 1
              \<and> handles s' dependency = Some Y'
              \<and> ref_count Y' = ref_count Y + 1"
    by blast
qed

theorem add_dependency_effects_witness:
  "\<exists>s' D' Y'. rclpy_handle_add_dependency 300 100 200 two_handles = Inr (RCUTILS_RET_OK, s')
      \<and> s' = linked_handles
      \<and> dependency_seq s' 100 = dependency_seq two_handles 100 @ [Some 200]
      \<and> handles s' 100 = Some D' \<and> unat (num_of_dependencies D') = 1
      \<and> handles s' 200 = Some Y' \<and> ref_count Y' = 2"
proof -
  have D: "handles two_handles 100 = Some \<lparr>ptr = 7, ref_count = 1, dependencies = NULL,
       num_of_dependencies = 0, destructor = 9\<rparr>"
    by (simp add: two_handles_def)
  have Y: "handles two_handles 200 = Some \<lparr>ptr = 8, ref_count = 1, dependencies = NULL,
       num_of_dependencies = 0, destructor = 9\<rparr>"
    by (simp add: two_handles_def)
  have sz: "8 * (unat (num_of_dependencies \<lparr>ptr = 7, ref_count = 1 :: size_t, dependencies = NULL,
       num_of_dependencies = 0 :: size_t, destructor = 9\<rparr>) + 1) < (2 :: nat) ^ 64"
    by simp
  have e: "rclpy_handle_add_dependency 300 100 200 two_handles = Inr (RCUTILS_RET_OK, linked_handles)"
    by (simp add: rclpy_handle_add_dependency_def reallocate_def two_handles_def
        linked_handles_def Let_def fun_upd_twist)
  from add_dependency_effects[OF live_two_handles D Y sz, of 300] e show ?thesis
    by auto
qed

text \<open>
  C10. \<open>add_dependency(H, H)\<close> on a live handle succeeds when \<open>reallocate\<close> does: \<open>H\<close> is
  appended to its own sequence and its own \<open>ref_count\<close> is one higher; the handle is still
  live. Nothing undoes the cycle: when the count was 1 before, the owner's \<open>release\<close>
  afterwards only brings it back to 1, and the handle stays allocated with its destructor
  not called.
\<close>

theorem add_dependency_self_edge:
  assumes lv: "live s h" and H: "handles s h = Some H"
    and size: "8 * (unat (num_of_dependencies H) + 1) < 2 ^ 64"
    and a: "answer \<noteq> NULL"
  shows "\<exists>s' H'. rclpy_handle_add_dependency answer h h s = Inr (RCUTILS_RET_OK, s')
           \<and> dependency_seq s' h = dependency_seq s h @ [Some h]
           \<and> handles s' h = Some H'
           \<and> ref_count H' = ref_count H + 1
           \<and> live s' h
           \<and> (ref_count H = 1 \<longrightarrow>
                rclpy_handle_dec_ref (Suc n) h s' =
                  Some (Inr (s'\<lparr>handles := (handles s')(h \<mapsto> H'\<lparr>ref_count := 1\<rparr>)\<rparr>)))"
proof -
  from lv have nn: "h \<noteq> NULL" by (simp add: live_def)
  from live_blk[OF lv H] obtain blk where
    blk: "if dependencies H = NULL then blk = [] else arrays s (dependencies H) = Some blk"
    and len: "length blk = unat (num_of_dependencies H)" by blast
  let ?s' = "added answer h h H blk s"
  let ?H' = "H\<lparr>num_of_dependencies := num_of_dependencies H + 1, dependencies := answer,
               ref_count := ref_count H + 1\<rparr>"
  note sz = size_no_wrap[OF size]
  have r: "rclpy_handle_add_dependency answer h h s = Inr (RCUTILS_RET_OK, ?s')"
    by (rule add_dependency_success[OF nn nn a H H blk len size])
  have q: "dependency_seq ?s' h = dependency_seq s h @ [Some h]"
    by (rule dependency_seq_added[OF a H blk len size])
  have h': "handles ?s' h = Some ?H'"
    by (simp add: added_def Let_def)
  have c: "deps_consistent ?H'"
    using a sz(4) by (simp add: deps_consistent_def)
  have l: "live ?s' h"
    using nn a sz len c by (simp add: live_def h') (simp add: added_def Let_def)
  have d: "ref_count H = 1 \<longrightarrow> rclpy_handle_dec_ref (Suc n) h ?s' =
        Some (Inr (?s'\<lparr>handles := (handles ?s')(h \<mapsto> ?H'\<lparr>ref_count := 1\<rparr>)\<rparr>))"
    using nn c by (auto simp: h' Let_def deps_consistent_def)
  from r q h' l d show ?thesis by simp
qed

theorem add_dependency_self_edge_witness:
  "rclpy_handle_add_dependency 300 100 100 one_handle = Inr (RCUTILS_RET_OK, self_linked)
   \<and> dependency_seq self_linked 100 = [Some 100]
   \<and> live self_linked 100
   \<and> rclpy_handle_dec_ref (Suc 0) 100 self_linked = Some (Inr (self_linked\<lparr>handles :=
        [100 \<mapsto> \<lparr>ptr = 7, ref_count = 1, dependencies = 300,
       num_of_dependencies = 1, destructor = 9\<rparr>]\<rparr>))"
proof -
  have H: "handles one_handle 100 = Some \<lparr>ptr = 7, ref_count = 1, dependencies = NULL,
       num_of_dependencies = 0, destructor = 9\<rparr>"
    by (simp add: one_handle_def)
  have sz: "8 * (unat (num_of_dependencies \<lparr>ptr = 7, ref_count = 1 :: size_t, dependencies = NULL,
       num_of_dependencies = 0 :: size_t, destructor = 9\<rparr>) + 1) < (2 :: nat) ^ 64"
    by simp
  have a: "(300 :: nat) \<noteq> NULL" by simp
  have e: "rclpy_handle_add_dependency 300 100 100 one_handle = Inr (RCUTILS_RET_OK, self_linked)"
    by (simp add: rclpy_handle_add_dependency_def reallocate_def one_handle_def
        self_linked_def Let_def)
  have q: "dependency_seq one_handle 100 = []"
    by (simp add: dependency_seq_def one_handle_def)
  from add_dependency_self_edge[OF live_one_handle H sz a, of 0] e q show ?thesis
    by (auto simp: self_linked_def)
qed

section \<open>Release: fuel and case analysis\<close>

text \<open>More fuel never changes a result that was reached.\<close>

lemma dec_ref_mono:
  "(rclpy_handle_dec_ref n h s = Some r \<longrightarrow> rclpy_handle_dec_ref (n + k) h s = Some r) \<and>
   (dec_ref_loop n h i s = Some r \<longrightarrow> dec_ref_loop (n + k) h i s = Some r)"
proof (induction n arbitrary: h s i r)
  case 0
  show ?case by simp
next
  case (Suc n)
  show ?case
  proof (intro conjI impI)
    assume a: "rclpy_handle_dec_ref (Suc n) h s = Some r"
    show "rclpy_handle_dec_ref (Suc n + k) h s = Some r"
      using a Suc.IH
      by (auto simp: Let_def split: option.splits sum.splits if_splits)
  next
    assume a: "dec_ref_loop (Suc n) h i s = Some r"
    show "dec_ref_loop (Suc n + k) h i s = Some r"
      using a Suc.IH
      by (auto simp: Let_def split: option.splits sum.splits if_splits)
  qed
qed

lemma dec_ref_mono_le:
  assumes "rclpy_handle_dec_ref n h s = Some r" and "n \<le> m"
  shows "rclpy_handle_dec_ref m h s = Some r"
  using assms dec_ref_mono[of n h s r "m - n"] by simp

text \<open>The ways in which a release, and a round of its loop, can return normally.\<close>

lemma dec_ref_Suc_cases:
  assumes "rclpy_handle_dec_ref (Suc n) h s = Some (Inr s')"
  shows "(h = NULL \<and> s' = s) \<or>
         (\<exists>H. h \<noteq> NULL \<and> handles s h = Some H \<and> deps_consistent H \<and>
            ((ref_count H \<noteq> 1 \<and>
              s' = s\<lparr>handles := (handles s)(h \<mapsto> H\<lparr>ref_count := ref_count H - 1\<rparr>)\<rparr>) \<or>
             (ref_count H = 1 \<and>
              (\<exists>s3 H3 s4. dec_ref_loop n h 0 (begin_teardown h H s) = Some (Inr s3) \<and>
                 handles s3 h = Some H3 \<and>
                 deallocate_array (dependencies H3) s3 = Inr s4 \<and>
                 deallocate_handle h s4 = Inr s'))))"
proof (cases "h = NULL")
  case True
  with assms show ?thesis by simp
next
  case False
  from assms False obtain H where H: "handles s h = Some H"
    by (auto split: option.splits)
  from assms False H have c: "deps_consistent H"
    by (auto split: if_splits)
  show ?thesis
  proof (cases "ref_count H = 1")
    case True
    from assms False H c True show ?thesis
      by (auto simp: Let_def begin_teardown_def split: option.splits sum.splits)
  next
    case nz: False
    then have "ref_count H - 1 \<noteq> 0" by simp
    with assms False H c nz show ?thesis
      by (auto simp: Let_def)
  qed
qed

lemma dec_ref_loop_Suc_cases:
  assumes "dec_ref_loop (Suc n) h i s = Some (Inr s')"
  shows "\<exists>H. handles s h = Some H \<and>
           ((\<not> i < num_of_dependencies H \<and> s' = s) \<or>
            (i < num_of_dependencies H \<and>
             (\<exists>blk d s1. arrays s (dependencies H) = Some blk \<and> unat i < length blk \<and>
                blk ! unat i = Some d \<and> rclpy_handle_dec_ref n d s = Some (Inr s1) \<and>
                dec_ref_loop n h (i + 1) s1 = Some (Inr s'))))"
  using assms
  by (auto split: option.splits sum.splits if_splits)

section \<open>What a release leaves alone\<close>

lemma count_update_self: "\<exists>c. H = H\<lparr>ref_count := c\<rparr>"
  by (rule exI[of _ "ref_count H"]) simp

lemma shrinks_refl: "shrinks s s"
  by (auto simp: shrinks_def count_update_self)

lemma shrinks_handleD:
  assumes "shrinks s s'" and "handles s' y = Some H'"
  obtains H c where "handles s y = Some H" and "H' = H\<lparr>ref_count := c\<rparr>"
  using assms unfolding shrinks_def by blast

lemma shrinks_arrayD:
  assumes "shrinks s s'" and "arrays s' a = Some blk"
  shows "arrays s a = Some blk"
  using assms unfolding shrinks_def by blast

lemma shrinks_traceD:
  assumes "shrinks s s'"
  obtains t where "trace s' = trace s @ t"
  using assms unfolding shrinks_def by blast

lemma shrinks_trans:
  assumes st: "shrinks s t" and tu: "shrinks t u"
  shows "shrinks s u"
  unfolding shrinks_def
proof (intro conjI allI impI)
  fix y H' assume "handles u y = Some H'"
  with tu obtain H1 c1 where 1: "handles t y = Some H1" "H' = H1\<lparr>ref_count := c1\<rparr>"
    by (rule shrinks_handleD)
  from st 1(1) obtain H c where 2: "handles s y = Some H" "H1 = H\<lparr>ref_count := c\<rparr>"
    by (rule shrinks_handleD)
  from 1(2) 2(2) have "H' = H\<lparr>ref_count := c1\<rparr>" by simp
  with 2(1) show "\<exists>H c. handles s y = Some H \<and> H' = H\<lparr>ref_count := c\<rparr>" by blast
next
  fix a blk assume "arrays u a = Some blk"
  then show "arrays s a = Some blk" using st tu by (blast intro: shrinks_arrayD)
next
  from st obtain t1 where "trace t = trace s @ t1" by (rule shrinks_traceD)
  moreover from tu obtain t2 where "trace u = trace t @ t2" by (rule shrinks_traceD)
  ultimately show "\<exists>x. trace u = trace s @ x" by simp
qed

lemma shrinks_count:
  assumes "handles s h = Some H"
  shows "shrinks s (s\<lparr>handles := (handles s)(h \<mapsto> H\<lparr>ref_count := c\<rparr>)\<rparr>)"
  using assms by (auto simp: shrinks_def count_update_self)

lemma shrinks_call_destructor: "shrinks s (call_destructor H s)"
  by (auto simp: shrinks_def call_destructor_def count_update_self)

lemma shrinks_begin_teardown:
  assumes "handles s h = Some H"
  shows "shrinks s (begin_teardown h H s)"
  unfolding begin_teardown_def
  by (rule shrinks_trans[OF shrinks_count[OF assms] shrinks_call_destructor])

lemma shrinks_deallocate_array:
  assumes "deallocate_array a s = Inr s'"
  shows "shrinks s s'"
  using assms by (auto simp: shrinks_def deallocate_array_def count_update_self split: if_splits)

lemma shrinks_deallocate_handle:
  assumes "deallocate_handle a s = Inr s'"
  shows "shrinks s s'"
  using assms by (auto simp: shrinks_def deallocate_handle_def count_update_self split: if_splits)

lemma dec_ref_shrinks_both:
  "(\<forall>h s s'. rclpy_handle_dec_ref n h s = Some (Inr s') \<longrightarrow> shrinks s s') \<and>
   (\<forall>h i s s'. dec_ref_loop n h i s = Some (Inr s') \<longrightarrow> shrinks s s')"
proof (induction n)
  case 0
  show ?case by simp
next
  case (Suc n)
  have ihd: "\<And>h s s'. rclpy_handle_dec_ref n h s = Some (Inr s') \<Longrightarrow> shrinks s s'"
    and ihl: "\<And>h i s s'. dec_ref_loop n h i s = Some (Inr s') \<Longrightarrow> shrinks s s'"
    using Suc.IH by blast+
  have d: "shrinks s s'" if a: "rclpy_handle_dec_ref (Suc n) h s = Some (Inr s')" for h s s'
    using dec_ref_Suc_cases[OF a]
  proof (elim disjE exE conjE)
    assume "s' = s"
    then show ?thesis by (simp add: shrinks_refl)
  next
    fix H
    assume "handles s h = Some H"
      "s' = s\<lparr>handles := (handles s)(h \<mapsto> H\<lparr>ref_count := ref_count H - 1\<rparr>)\<rparr>"
    then show ?thesis by (simp add: shrinks_count)
  next
    fix H s3 H3 s4
    assume t: "handles s h = Some H"
      "dec_ref_loop n h 0 (begin_teardown h H s) = Some (Inr s3)"
      "deallocate_array (dependencies H3) s3 = Inr s4"
      "deallocate_handle h s4 = Inr s'"
    have "shrinks s s3"
      by (rule shrinks_trans[OF shrinks_begin_teardown[OF t(1)] ihl[OF t(2)]])
    then have "shrinks s s4"
      by (rule shrinks_trans[OF _ shrinks_deallocate_array[OF t(3)]])
    then show ?thesis
      by (rule shrinks_trans[OF _ shrinks_deallocate_handle[OF t(4)]])
  qed
  have l: "shrinks s s'" if a: "dec_ref_loop (Suc n) h i s = Some (Inr s')" for h i s s'
    using dec_ref_loop_Suc_cases[OF a]
  proof (elim disjE exE conjE)
    assume "s' = s"
    then show ?thesis by (simp add: shrinks_refl)
  next
    fix H blk d s1
    assume t: "rclpy_handle_dec_ref n d s = Some (Inr s1)"
      "dec_ref_loop n h (i + 1) s1 = Some (Inr s')"
    from ihd[OF t(1)] ihl[OF t(2)] show ?thesis by (rule shrinks_trans)
  qed
  from d l show ?case by blast
qed

lemma dec_ref_shrinks:
  assumes "rclpy_handle_dec_ref n h s = Some (Inr s')"
  shows "shrinks s s'"
  using assms dec_ref_shrinks_both by blast

lemma dec_ref_loop_shrinks:
  assumes "dec_ref_loop n h i s = Some (Inr s')"
  shows "shrinks s s'"
  using assms dec_ref_shrinks_both by blast

section \<open>The consistency of the dependency array and its length\<close>

lemma shrinks_all_consistent:
  assumes "shrinks s s'" and "all_consistent s"
  shows "all_consistent s'"
  unfolding all_consistent_def
proof (intro allI impI)
  fix h H' assume "handles s' h = Some H'"
  with assms(1) obtain H c where H: "handles s h = Some H" "H' = H\<lparr>ref_count := c\<rparr>"
    by (rule shrinks_handleD)
  from assms(2) H(1) have "deps_consistent H" by (simp add: all_consistent_def)
  then have "deps_consistent (H\<lparr>ref_count := c\<rparr>)" by (simp add: deps_consistent_def)
  with H(2) show "deps_consistent H'" by simp
qed

lemma deps_consistent_count [simp]:
  "deps_consistent (H\<lparr>ref_count := c\<rparr>) = deps_consistent H"
  by (simp add: deps_consistent_def)

lemma all_consistent_update:
  assumes "all_consistent s" and "deps_consistent H"
  shows "all_consistent (s\<lparr>handles := (handles s)(h \<mapsto> H)\<rparr>)"
  using assms by (auto simp: all_consistent_def)

lemma all_consistent_arrays [simp]:
  "all_consistent (s\<lparr>arrays := m\<rparr>) = all_consistent s"
  by (simp add: all_consistent_def)

lemma create_all_consistent:
  assumes "rclpy_create_handle answer p d s = Inr (h, s')" and "all_consistent s"
  shows "all_consistent s'"
proof -
  have "s' = s \<or> s' = s\<lparr>handles := (handles s)(h \<mapsto> \<lparr>ptr = p, ref_count = 1,
          dependencies = NULL, num_of_dependencies = 0, destructor = d\<rparr>)\<rparr>"
    using assms(1)
    by (auto simp: rclpy_create_handle_def zero_allocate_def zero_handle_def Let_def
        split: if_splits)
  moreover have "deps_consistent \<lparr>ptr = p, ref_count = 1,
          dependencies = NULL, num_of_dependencies = 0, destructor = d\<rparr>"
    by (simp add: deps_consistent_def)
  ultimately show ?thesis using assms(2) all_consistent_update by metis
qed

lemma add_dependency_all_consistent:
  assumes "rclpy_handle_add_dependency answer dependent dependency s = Inr (r, s')"
    and "all_consistent s"
  shows "all_consistent s'"
proof -
  from assms(1) obtain D where D: "handles s dependent = Some D"
    by (auto simp: rclpy_handle_add_dependency_def split: if_splits option.splits)
  from assms(1) D have nz: "(num_of_dependencies D + 1) * 8 \<noteq> 0"
    by (auto simp: rclpy_handle_add_dependency_def reallocate_def split: if_splits)
  have n1: "num_of_dependencies D + 1 \<noteq> 0"
  proof
    assume "num_of_dependencies D + 1 = 0"
    then have "(num_of_dependencies D + 1) * 8 = 0" by (simp only: mult_zero_left)
    with nz show False ..
  qed
  let ?D2 = "D\<lparr>num_of_dependencies := num_of_dependencies D + 1, dependencies := answer\<rparr>"
  have shape: "s' = s \<or> (answer \<noteq> NULL \<and> (\<exists>m Y.
      ((handles s)(dependent \<mapsto> ?D2)) dependency = Some Y \<and>
      s' = s\<lparr>arrays := m, handles := ((handles s)(dependent \<mapsto> ?D2))(dependency \<mapsto>
              Y\<lparr>ref_count := ref_count Y + 1\<rparr>)\<rparr>))"
    using assms(1) D
    unfolding rclpy_handle_add_dependency_def reallocate_def
    by (auto simp: Let_def split: if_splits option.splits sum.splits)
  then show ?thesis
  proof
    assume "s' = s" with assms(2) show ?thesis by simp
  next
    assume "answer \<noteq> NULL \<and> (\<exists>m Y.
      ((handles s)(dependent \<mapsto> ?D2)) dependency = Some Y \<and>
      s' = s\<lparr>arrays := m, handles := ((handles s)(dependent \<mapsto> ?D2))(dependency \<mapsto>
              Y\<lparr>ref_count := ref_count Y + 1\<rparr>)\<rparr>)"
    then obtain m Y where a: "answer \<noteq> NULL"
      and Y: "((handles s)(dependent \<mapsto> ?D2)) dependency = Some Y"
      and s': "s' = s\<lparr>arrays := m, handles := ((handles s)(dependent \<mapsto> ?D2))(dependency \<mapsto>
              Y\<lparr>ref_count := ref_count Y + 1\<rparr>)\<rparr>" by blast
    have c2: "deps_consistent ?D2" using a n1 by (simp add: deps_consistent_def)
    have t: "all_consistent (s\<lparr>handles := (handles s)(dependent \<mapsto> ?D2)\<rparr>)"
      by (rule all_consistent_update[OF assms(2) c2])
    then have "deps_consistent Y" using Y by (auto simp: all_consistent_def split: if_splits)
    then have "deps_consistent (Y\<lparr>ref_count := ref_count Y + 1\<rparr>)" by simp
    from all_consistent_update[OF t this, of dependency] show ?thesis
      unfolding all_consistent_def by (simp add: s')
  qed
qed

lemma all_consistent_empty: "all_consistent empty_memory"
  by (simp add: all_consistent_def empty_memory_def)

text \<open>
  C8. The assert condition of \<open>_rclpy_handle_dec_ref\<close> (either \<open>num_of_dependencies\<close> is
  0 and \<open>dependencies\<close> is \<open>NULL\<close>, or the number is non-zero and the pointer is not
  \<open>NULL\<close>) holds for the record that \<open>create\<close> returns, and when it holds for every
  allocated record it still does after any \<open>create\<close>, any \<open>add_dependency\<close> and any
  \<open>release\<close> that returns normally.
\<close>

theorem dependencies_invariant:
  assumes "all_consistent s"
  shows "(\<forall>answer p d h s'. rclpy_create_handle answer p d s = Inr (h, s') \<longrightarrow>
            all_consistent s' \<and> (h \<noteq> NULL \<longrightarrow> (\<exists>H. handles s' h = Some H \<and> deps_consistent H)))
       \<and> (\<forall>answer dependent dependency r s'.
            rclpy_handle_add_dependency answer dependent dependency s = Inr (r, s') \<longrightarrow>
            all_consistent s')
       \<and> (\<forall>n h s'. rclpy_handle_dec_ref n h s = Some (Inr s') \<longrightarrow> all_consistent s')"
proof (intro conjI allI impI)
  fix answer p d h s'
  assume a: "rclpy_create_handle answer p d s = Inr (h, s')"
  show c: "all_consistent s'" by (rule create_all_consistent[OF a assms])
  assume "h \<noteq> NULL"
  with a have "\<exists>H. handles s' h = Some H"
    by (auto simp: rclpy_create_handle_def zero_allocate_def Let_def split: if_splits)
  with c show "\<exists>H. handles s' h = Some H \<and> deps_consistent H"
    by (auto simp: all_consistent_def)
next
  fix answer dependent dependency r s'
  assume "rclpy_handle_add_dependency answer dependent dependency s = Inr (r, s')"
  then show "all_consistent s'" using assms by (rule add_dependency_all_consistent)
next
  fix n h s'
  assume "rclpy_handle_dec_ref n h s = Some (Inr s')"
  then have "shrinks s s'" by (rule dec_ref_shrinks)
  then show "all_consistent s'" using assms by (rule shrinks_all_consistent)
qed

theorem dependencies_invariant_witness:
  "all_consistent empty_memory \<and> all_consistent one_handle
   \<and> all_consistent self_linked
   \<and> all_consistent (self_linked\<lparr>handles :=
        [100 \<mapsto> \<lparr>ptr = 7, ref_count = 1, dependencies = 300,
       num_of_dependencies = 1, destructor = 9\<rparr>]\<rparr>)"
proof -
  have c: "rclpy_create_handle 100 7 9 empty_memory = Inr (100, one_handle)"
    by (simp add: rclpy_create_handle_def zero_allocate_def zero_handle_def
        empty_memory_def one_handle_def)
  from dependencies_invariant[OF all_consistent_empty] c
  have 1: "all_consistent one_handle" by blast
  have a: "rclpy_handle_add_dependency 300 100 100 one_handle = Inr (RCUTILS_RET_OK, self_linked)"
    by (simp add: rclpy_handle_add_dependency_def reallocate_def one_handle_def
        self_linked_def Let_def)
  from dependencies_invariant[OF 1] a
  have 2: "all_consistent self_linked" by blast
  have r: "rclpy_handle_dec_ref (Suc 0) 100 self_linked = Some (Inr (self_linked\<lparr>handles :=
        [100 \<mapsto> \<lparr>ptr = 7, ref_count = 1, dependencies = 300,
       num_of_dependencies = 1, destructor = 9\<rparr>]\<rparr>))"
    by (simp add: self_linked_def deps_consistent_def Let_def)
  from dependencies_invariant[OF 2] r
  have 3: "all_consistent (self_linked\<lparr>handles :=
        [100 \<mapsto> \<lparr>ptr = 7, ref_count = 1, dependencies = 300,
       num_of_dependencies = 1, destructor = 9\<rparr>]\<rparr>)" by blast
  from all_consistent_empty 1 2 3 show ?thesis by simp
qed

section \<open>The order of a teardown\<close>

lemma release_each_mono:
  assumes "release_each n ds s = Some (Inr s')" and "n \<le> m"
  shows "release_each m ds s = Some (Inr s')"
  using assms
proof (induction ds arbitrary: s)
  case Nil
  then show ?case by simp
next
  case (Cons d ds)
  from Cons.prems(1) obtain s1 where
    a: "rclpy_handle_dec_ref n d s = Some (Inr s1)" and b: "release_each n ds s1 = Some (Inr s')"
    by (auto split: option.splits sum.splits)
  from dec_ref_mono_le[OF a Cons.prems(2)] Cons.IH[OF b Cons.prems(2)]
  show ?case by simp
qed

lemma word_succ_facts:
  fixes i n :: size_t
  assumes "i < n"
  shows "unat (i + 1) = unat i + 1" and "unat i < unat n"
    and "\<not> i + 1 < n \<Longrightarrow> unat n = unat i + 1"
proof -
  from assms show l: "unat i < unat n" by (simp add: word_less_nat_alt)
  have "unat n < 2 ^ 64" using unsigned_less[of n] by simp
  with l have "unat i + unat (1 :: size_t) < 2 ^ LENGTH(64)" by simp
  then show u: "unat (i + 1) = unat i + 1" using unat_add_lem[of i 1] by simp
  assume "\<not> i + 1 < n"
  then have "unat n \<le> unat (i + 1)" by (simp add: word_less_nat_alt)
  with u l show "unat n = unat i + 1" by simp
qed

lemma dec_ref_loop_release_each:
  assumes "dec_ref_loop n h i s = Some (Inr s')" and "handles s h = Some H"
  shows "release_each n (map the (pending s H i)) s = Some (Inr s')
         \<and> None \<notin> set (pending s H i)
         \<and> length (pending s H i) = unat (num_of_dependencies H) - unat i
         \<and> (\<exists>c. handles s' h = Some (H\<lparr>ref_count := c\<rparr>))
         \<and> (i < num_of_dependencies H \<longrightarrow> arrays s (dependencies H) \<noteq> None)"
  using assms
proof (induction n arbitrary: i s H)
  case 0
  then show ?case by simp
next
  case (Suc n)
  from dec_ref_loop_Suc_cases[OF Suc.prems(1)] Suc.prems(2)
  have "(\<not> i < num_of_dependencies H \<and> s' = s) \<or>
        (i < num_of_dependencies H \<and>
          (\<exists>blk d s1. arrays s (dependencies H) = Some blk \<and> unat i < length blk \<and>
             blk ! unat i = Some d \<and> rclpy_handle_dec_ref n d s = Some (Inr s1) \<and>
             dec_ref_loop n h (i + 1) s1 = Some (Inr s')))"
    by auto
  then show ?case
  proof (elim disjE exE conjE)
    assume a: "\<not> i < num_of_dependencies H" "s' = s"
    then have "unat (num_of_dependencies H) \<le> unat i" by (simp add: word_less_nat_alt)
    with a Suc.prems(2) show ?thesis
      by (auto simp: pending_def intro: exI[of _ "ref_count H"])
  next
    fix blk d s1
    assume lt: "i < num_of_dependencies H"
      and blk: "arrays s (dependencies H) = Some blk"
      and len: "unat i < length blk"
      and d: "blk ! unat i = Some d"
      and rd: "rclpy_handle_dec_ref n d s = Some (Inr s1)"
      and rl: "dec_ref_loop n h (i + 1) s1 = Some (Inr s')"
    note w = word_succ_facts[OF lt]
    from rl obtain m where m: "n = Suc m" by (cases n) auto
    from dec_ref_loop_Suc_cases[OF rl[unfolded m]] obtain H1 where
      H1: "handles s1 h = Some H1" by blast
    have sh: "shrinks s s1" by (rule dec_ref_shrinks[OF rd])
    from sh H1 obtain H0 c1 where "handles s h = Some H0" "H1 = H0\<lparr>ref_count := c1\<rparr>"
      by (rule shrinks_handleD)
    with Suc.prems(2) have H1eq: "H1 = H\<lparr>ref_count := c1\<rparr>" by simp
    then have f: "num_of_dependencies H1 = num_of_dependencies H"
        "dependencies H1 = dependencies H"
      by simp_all
    note ih = Suc.IH[OF rl H1]
    have next_blk: "i + 1 < num_of_dependencies H \<Longrightarrow> arrays s1 (dependencies H) = Some blk"
    proof -
      assume "i + 1 < num_of_dependencies H"
      with ih f obtain b where b: "arrays s1 (dependencies H) = Some b" by auto
      from shrinks_arrayD[OF sh b] blk show ?thesis using b by simp
    qed
    have p: "pending s H i = Some d # pending s1 H1 (i + 1)"
    proof (cases "i + 1 < num_of_dependencies H")
      case True
      have "drop (unat i) (take (unat (num_of_dependencies H)) blk) =
            blk ! unat i # drop (Suc (unat i)) (take (unat (num_of_dependencies H)) blk)"
        using len w(2) by (simp add: Cons_nth_drop_Suc[symmetric])
      with True lt blk d next_blk[OF True] w(1) f show ?thesis
        by (simp add: pending_def)
    next
      case False
      from w(3)[OF False] len have
        "drop (unat i) (take (unat (num_of_dependencies H)) blk) = [blk ! unat i]"
        by (simp add: take_Suc_conv_app_nth)
      with False lt blk d f show ?thesis
        by (simp add: pending_def)
    qed
    have r1: "rclpy_handle_dec_ref (Suc n) d s = Some (Inr s1)"
      by (rule dec_ref_mono_le[OF rd]) simp
    from ih have "release_each n (map the (pending s1 H1 (i + 1))) s1 = Some (Inr s')" by blast
    then have r2: "release_each (Suc n) (map the (pending s1 H1 (i + 1))) s1 = Some (Inr s')"
      by (rule release_each_mono) simp
    from ih obtain c0 where "handles s' h = Some (H1\<lparr>ref_count := c0\<rparr>)" by blast
    with H1eq have c: "handles s' h = Some (H\<lparr>ref_count := c0\<rparr>)" by simp
    have l: "length (pending s H i) = unat (num_of_dependencies H) - unat i"
      using p ih f w by simp
    have nn: "None \<notin> set (pending s H i)" using p ih by simp
    from r1 r2 have r: "release_each (Suc n) (map the (pending s H i)) s = Some (Inr s')"
      by (simp add: p)
    from r nn l c blk show ?thesis by blast
  qed
qed

lemma pending_start:
  assumes "deps_consistent H" and "handles s h = Some H"
    and "arrays s1 = arrays s"
  shows "pending s1 (H\<lparr>ref_count := c\<rparr>) 0 = dependency_seq s h"
proof (cases "num_of_dependencies H = 0")
  case True
  with assms show ?thesis
    by (auto simp: pending_def dependency_seq_def deps_consistent_def split: option.splits)
next
  case False
  then have "0 < num_of_dependencies H" by (simp add: word_neq_0_conv)
  with False assms show ?thesis
    by (auto simp: pending_def dependency_seq_def deps_consistent_def split: option.splits)
qed

lemma linked_release:
  "rclpy_handle_dec_ref (Suc (Suc (Suc 0))) 100 linked_handles = Some (Inr released_dependent)"
  by (simp add: linked_handles_def released_dependent_def deps_consistent_def Let_def
      call_destructor_def deallocate_array_def deallocate_handle_def)

text \<open>
  What a release that returns normally has done when it found \<open>ref_count = 1\<close>.
\<close>

lemma teardown_steps:
  assumes run: "rclpy_handle_dec_ref n h s = Some (Inr s')"
    and nn: "h \<noteq> NULL" and H: "handles s h = Some H"
    and one: "ref_count H = 1" and dn: "destructor H \<noteq> NULL"
  shows "\<exists>s1 s2 t.
      s1 = s\<lparr>handles := (handles s)(h \<mapsto> H\<lparr>ref_count := 0\<rparr>),
             trace := trace s @ [Destructor_call (destructor H) (ptr H)]\<rparr>
      \<and> None \<notin> set (dependency_seq s h)
      \<and> length (dependency_seq s h) = unat (num_of_dependencies H)
      \<and> release_each n (map the (dependency_seq s h)) s1 = Some (Inr s2)
      \<and> trace s2 = trace s1 @ t
      \<and> handles s2 h \<noteq> None
      \<and> (dependencies H \<noteq> NULL \<longrightarrow> arrays s2 (dependencies H) \<noteq> None)
      \<and> handles s' = (handles s2)(h := None)
      \<and> arrays s' = (if dependencies H = NULL then arrays s2
                      else (arrays s2)(dependencies H := None))
      \<and> trace s' = trace s @ [Destructor_call (destructor H) (ptr H)] @ t
                      @ [Deallocate (dependencies H), Deallocate h]"
proof -
  from run obtain m where m: "n = Suc m" by (cases n) auto
  let ?s1 = "s\<lparr>handles := (handles s)(h \<mapsto> H\<lparr>ref_count := 0\<rparr>),
             trace := trace s @ [Destructor_call (destructor H) (ptr H)]\<rparr>"
  have bt: "begin_teardown h H s = ?s1"
    using dn by (simp add: begin_teardown_def call_destructor_def)
  from dec_ref_Suc_cases[OF run[unfolded m]] nn H one
  obtain s3 H3 s4 where c: "deps_consistent H"
    and loop: "dec_ref_loop m h 0 ?s1 = Some (Inr s3)"
    and H3: "handles s3 h = Some H3"
    and da: "deallocate_array (dependencies H3) s3 = Inr s4"
    and dh: "deallocate_handle h s4 = Inr s'"
    by (auto simp: bt)
  have H1: "handles ?s1 h = Some (H\<lparr>ref_count := 0\<rparr>)" by simp
  note le = dec_ref_loop_release_each[OF loop H1]
  have ps: "pending ?s1 (H\<lparr>ref_count := 0\<rparr>) 0 = dependency_seq s h"
    by (rule pending_start[OF c H]) simp
  from le have rel: "release_each m (map the (dependency_seq s h)) ?s1 = Some (Inr s3)"
    by (simp add: ps)
  then have rel': "release_each n (map the (dependency_seq s h)) ?s1 = Some (Inr s3)"
    by (rule release_each_mono) (simp add: m)
  from le have nn': "None \<notin> set (dependency_seq s h)"
    and len: "length (dependency_seq s h) = unat (num_of_dependencies H)"
    by (simp_all add: ps)
  from le H3 obtain c3 where "H3 = H\<lparr>ref_count := c3\<rparr>" by auto
  then have d3: "dependencies H3 = dependencies H" by simp
  from dec_ref_loop_shrinks[OF loop] obtain t where t: "trace s3 = trace ?s1 @ t"
    by (rule shrinks_traceD)
  from da have a4: "arrays s4 = (if dependencies H = NULL then arrays s3
                      else (arrays s3)(dependencies H := None))"
    and h4: "handles s4 = handles s3"
    and t4: "trace s4 = trace s3 @ [Deallocate (dependencies H)]"
    and live_arr: "dependencies H \<noteq> NULL \<longrightarrow> arrays s3 (dependencies H) \<noteq> None"
    by (auto simp: deallocate_array_def d3 split: if_splits)
  from dh nn have a5: "arrays s' = arrays s4"
    and h5: "handles s' = (handles s4)(h := None)"
    and t5: "trace s' = trace s4 @ [Deallocate h]"
    by (auto simp: deallocate_handle_def split: if_splits)
  have "trace s' = trace s @ [Destructor_call (destructor H) (ptr H)] @ t
                      @ [Deallocate (dependencies H), Deallocate h]"
    using t t4 t5 by simp
  with nn' len rel' t H3 live_arr a4 a5 h4 h5 show ?thesis
    by (intro exI[of _ ?s1] exI[of _ s3] exI[of _ t]) simp
qed

section \<open>Release in a well-formed store\<close>

subsection \<open>Counting the references\<close>

lemma incoming_cong:
  assumes "dom (handles s') = dom (handles s)"
    and "\<And>h. h \<in> dom (handles s) \<Longrightarrow> active s' dn' h = active s dn h"
  shows "incoming s' dn' y = incoming s dn y"
  unfolding incoming_def using assms by (simp cong: sum.cong)

lemma count_list_drop_Suc:
  assumes "i < length xs"
  shows "count_list (drop i xs) v = (if xs ! i = v then 1 else 0) + count_list (drop (Suc i) xs) v"
proof -
  from assms have "drop i xs = xs ! i # drop (Suc i) xs" by (simp add: Cons_nth_drop_Suc)
  then show ?thesis by simp
qed

lemma incoming_step:
  assumes fin: "finite (dom (handles s))" and h: "h \<in> dom (handles s)"
    and i: "i < length (dependency_seq s h)"
  shows "incoming s (dn(h := i)) y =
           (if dependency_seq s h ! i = Some y then 1 else 0) + incoming s (dn(h := Suc i)) y"
proof -
  let ?f = "\<lambda>dn x. count_list (active s dn x) (Some y)"
  have rest: "sum (?f (dn(h := i))) (dom (handles s) - {h}) =
              sum (?f (dn(h := Suc i))) (dom (handles s) - {h})"
    by (rule sum.cong) (simp_all add: active_def)
  have "incoming s (dn(h := i)) y = ?f (dn(h := i)) h + sum (?f (dn(h := i))) (dom (handles s) - {h})"
    unfolding incoming_def by (rule sum.remove[OF fin h])
  also have "?f (dn(h := i)) h =
      (if dependency_seq s h ! i = Some y then 1 else 0) + ?f (dn(h := Suc i)) h"
    using count_list_drop_Suc[OF i, of "Some y"] by (simp add: active_def)
  also note rest
  also have "(if dependency_seq s h ! i = Some y then 1 else 0) + ?f (dn(h := Suc i)) h
        + sum (?f (dn(h := Suc i))) (dom (handles s) - {h}) =
      (if dependency_seq s h ! i = Some y then 1 else 0) + incoming s (dn(h := Suc i)) y"
    unfolding incoming_def using sum.remove[OF fin h, of "?f (dn(h := Suc i))"] by simp
  finally show ?thesis .
qed

lemma incoming_remove:
  assumes fin: "finite (dom (handles s))" and h: "h \<in> dom (handles s)"
    and gone: "handles s' = (handles s)(h := None)"
    and same: "\<And>x. x \<in> dom (handles s) \<Longrightarrow> x \<noteq> h \<Longrightarrow> active s' dn x = active s dn x"
    and empty: "active s dn h = []"
  shows "incoming s' dn y = incoming s dn y"
proof -
  let ?f = "\<lambda>s x. count_list (active s dn x) (Some y)"
  have d: "dom (handles s') = dom (handles s) - {h}" using gone by auto
  have "incoming s dn y = ?f s h + sum (?f s) (dom (handles s) - {h})"
    unfolding incoming_def by (rule sum.remove[OF fin h])
  also have "?f s h = 0" using empty by simp
  also have "sum (?f s) (dom (handles s) - {h}) = sum (?f s') (dom (handles s) - {h})"
    by (rule sum.cong) (simp_all add: same)
  finally show ?thesis unfolding incoming_def d by simp
qed

lemma incoming_zero:
  assumes fin: "finite (dom (handles s))" and z: "incoming s dn y = 0"
    and x: "x \<in> dom (handles s)"
  shows "Some y \<notin> set (active s dn x)"
proof -
  from z fin x have "count_list (active s dn x) (Some y) = 0"
    unfolding incoming_def by simp
  then show ?thesis by (simp add: count_list_0_iff)
qed

subsection \<open>Steps that keep a store well-formed\<close>

lemma dependency_seq_cong:
  assumes "handles s y = Some Y" and "handles s' y = Some (Y\<lparr>ref_count := c\<rparr>)"
    and "dependencies Y \<noteq> NULL \<Longrightarrow> arrays s' (dependencies Y) = arrays s (dependencies Y)"
  shows "dependency_seq s' y = dependency_seq s y"
  using assms by (auto simp: dependency_seq_def split: option.splits)

lemma handle_ok_seq:
  assumes "handle_ok own rk dn s h H" and "handles s h = Some H"
  shows "length (dependency_seq s h) = unat (num_of_dependencies H)"
  using assms
  by (auto simp: handle_ok_def dependency_seq_def deps_consistent_def)

lemma handle_ok_block:
  assumes o: "handle_ok own rk dn s h H" and H: "handles s h = Some H"
    and nz: "num_of_dependencies H \<noteq> 0"
  shows "dependencies H \<noteq> NULL \<and> arrays s (dependencies H) = Some (dependency_seq s h)
         \<and> length (dependency_seq s h) = unat (num_of_dependencies H)"
  using assms
  by (auto simp: handle_ok_def dependency_seq_def deps_consistent_def)

lemma well_formedD:
  assumes "well_formed own rk dn s"
  shows "finite (dom (handles s))" and "unshared s"
    and "\<And>h H. handles s h = Some H \<Longrightarrow> handle_ok own rk dn s h H"
  using assms by (auto simp: well_formed_def)

lemma well_formed_update_count:
  assumes w: "well_formed own rk dn s" and H: "handles s h = Some H"
    and hs: "handles s' = (handles s)(h \<mapsto> H\<lparr>ref_count := c\<rparr>)"
    and ar: "arrays s' = arrays s"
    and c1: "own' h + incoming s dn h \<le> unat c"
    and c2: "c \<noteq> 0 \<longrightarrow> dn h = 0"
    and c3: "\<And>y. y \<noteq> h \<Longrightarrow> own' y = own y"
  shows "well_formed own' rk dn s'"
proof -
  have dm: "dom (handles s') = dom (handles s)" using H hs by auto
  have sq: "dependency_seq s' y = dependency_seq s y" for y
  proof (cases "y = h")
    case True
    then show ?thesis using H unfolding dependency_seq_def hs ar
      by (simp split: option.splits)
  next
    case False
    then show ?thesis unfolding dependency_seq_def hs ar by simp
  qed
  then have ac: "active s' dn y = active s dn y" for y by (simp add: active_def)
  have inc: "incoming s' dn y = incoming s dn y" for y
    by (rule incoming_cong[OF dm]) (simp add: ac)
  have ok: "handle_ok own' rk dn s' y Y'" if Y': "handles s' y = Some Y'" for y Y'
  proof (cases "y = h")
    case True
    with Y' hs have e: "Y' = H\<lparr>ref_count := c\<rparr>" by simp
    from well_formedD(3)[OF w H] show ?thesis
      unfolding handle_ok_def e True using c1 c2
      by (simp add: sq ac inc dm ar)
  next
    case False
    with Y' hs have Y: "handles s y = Some Y'" by simp
    from well_formedD(3)[OF w Y] show ?thesis
      unfolding handle_ok_def using c3[OF False]
      by (simp add: sq ac inc dm ar)
  qed
  have us: "unshared s'"
    using well_formedD(2)[OF w] H unfolding unshared_def hs
    by (auto split: if_splits)
  from well_formedD(1)[OF w] dm ok us show ?thesis by (simp add: well_formed_def)
qed

lemma well_formed_dn_cong:
  assumes w: "well_formed own rk dn s" and e: "\<And>y. y \<in> dom (handles s) \<Longrightarrow> dn' y = dn y"
  shows "well_formed own rk dn' s"
proof -
  have ac: "active s dn' y = active s dn y" if "y \<in> dom (handles s)" for y
    using e[OF that] by (simp add: active_def)
  have inc: "incoming s dn' y = incoming s dn y" for y
    by (rule incoming_cong) (simp_all add: ac)
  have ok: "handle_ok own rk dn' s y Y" if Y: "handles s y = Some Y" for y Y
  proof -
    from Y have "y \<in> dom (handles s)" by auto
    from well_formedD(3)[OF w Y] e[OF this] ac[OF this] show ?thesis
      unfolding handle_ok_def by (simp add: inc)
  qed
  from well_formedD(1,2)[OF w] ok show ?thesis by (simp add: well_formed_def)
qed

lemma well_formed_edge_to_owner:
  assumes w: "well_formed own rk (dn(h := i)) s" and H: "handles s h = Some H"
    and z: "ref_count H = 0"
    and i: "i < length (dependency_seq s h)" and d: "dependency_seq s h ! i = Some d"
  shows "well_formed (own(d := own d + 1)) rk (dn(h := Suc i)) s"
proof -
  note fin = well_formedD(1)[OF w]
  from H have hd: "h \<in> dom (handles s)" by auto
  note st = incoming_step[OF fin hd i, of dn]
  have ok: "handle_ok (own(d := own d + 1)) rk (dn(h := Suc i)) s y Y"
    if Y: "handles s y = Some Y" for y Y
  proof -
    note o = well_formedD(3)[OF w Y]
    have sub: "set (active s (dn(h := Suc i)) y) \<subseteq> set (active s (dn(h := i)) y)"
      by (auto simp: active_def dest: in_set_dropD intro: set_drop_subset_set_drop[THEN subsetD, rotated])
    have cnt: "(own(d := own d + 1)) y + incoming s (dn(h := Suc i)) y
               = own y + incoming s (dn(h := i)) y"
      using st[of y] d by auto
    have dz: "ref_count Y \<noteq> 0 \<longrightarrow> (dn(h := Suc i)) y = 0"
      using o Y H z by (auto simp: handle_ok_def)
    from o sub cnt dz show ?thesis
      unfolding handle_ok_def by (simp only: cnt) blast
  qed
  from well_formedD(1,2)[OF w] ok show ?thesis by (simp add: well_formed_def)
qed

lemma well_formed_remove:
  assumes w: "well_formed own rk dn s" and H: "handles s h = Some H"
    and z: "ref_count H = 0"
    and dne: "dn h = length (dependency_seq s h)"
    and hs: "handles s' = (handles s)(h := None)"
    and ar: "arrays s' = (if dependencies H = NULL then arrays s
                          else (arrays s)(dependencies H := None))"
  shows "well_formed own rk dn s'"
proof -
  note fin = well_formedD(1)[OF w]
  note us = well_formedD(2)[OF w]
  from H have hd: "h \<in> dom (handles s)" by auto
  have dm: "dom (handles s') = dom (handles s) - {h}" using hs by auto
  have empty: "active s dn h = []" using dne by (simp add: active_def)
  have "own h + incoming s dn h \<le> unat (ref_count H)"
    using well_formedD(3)[OF w H] by (simp add: handle_ok_def)
  with z have inz: "incoming s dn h = 0" by simp
  have sq: "dependency_seq s' y = dependency_seq s y"
    if Y: "handles s y = Some Y" and ne: "y \<noteq> h" for y Y
  proof -
    have "dependencies Y \<noteq> NULL \<Longrightarrow> arrays s' (dependencies Y) = arrays s (dependencies Y)"
      using us Y H ne unfolding unshared_def ar by auto
    moreover have "handles s' y = Some Y" using Y ne hs by simp
    ultimately show ?thesis using Y
      unfolding dependency_seq_def by (simp split: option.splits)
  qed
  then have ac: "active s' dn y = active s dn y"
    if "y \<in> dom (handles s)" and "y \<noteq> h" for y
    using that by (auto simp: active_def)
  have inc: "incoming s' dn y = incoming s dn y" for y
    by (rule incoming_remove[OF fin hd hs _ empty]) (rule ac)
  have ok: "handle_ok own rk dn s' y Y" if Y': "handles s' y = Some Y" for y Y
  proof -
    from Y' hs have ne: "y \<noteq> h" and Y: "handles s y = Some Y"
      by (auto split: if_splits)
    then have yd: "y \<in> dom (handles s)" by auto
    note o = well_formedD(3)[OF w Y]
    have nh: "Some h \<notin> set (active s dn y)" by (rule incoming_zero[OF fin inz yd])
    have tg: "\<forall>e \<in> set (active s dn y). \<exists>d. e = Some d \<and> d \<in> dom (handles s')"
    proof
      fix e assume e: "e \<in> set (active s dn y)"
      with o obtain d where d: "e = Some d" "d \<in> dom (handles s)"
        unfolding handle_ok_def by blast
      with e nh have "d \<noteq> h" by auto
      with d show "\<exists>d. e = Some d \<and> d \<in> dom (handles s')" unfolding dm by blast
    qed
    have arr: "dependencies Y \<noteq> NULL \<longrightarrow>
        (\<exists>blk. arrays s' (dependencies Y) = Some blk \<and> length blk = unat (num_of_dependencies Y))"
      using o us Y H ne unfolding unshared_def ar handle_ok_def by auto
    from o tg arr show ?thesis
      unfolding handle_ok_def by (simp add: sq[OF Y ne] ac[OF yd ne] inc)
  qed
  have us': "unshared s'" using us unfolding unshared_def hs by (auto split: if_splits)
  from fin dm ok us' show ?thesis by (simp add: well_formed_def)
qed

subsection \<open>The release returns\<close>

lemma untouched_refl: "untouched s s y"
  by (simp add: untouched_def)

lemma untouched_trans:
  assumes "untouched s t y" and "untouched t u y"
  shows "untouched s u y"
  using assms by (auto simp: untouched_def)

lemma dec_ref_loop_mono_le:
  assumes "dec_ref_loop n h i s = Some r" and "n \<le> m"
  shows "dec_ref_loop m h i s = Some r"
  using assms dec_ref_mono[of n h s r "m - n" i] by simp

lemma loop_total:
  assumes IH: "\<And>d. rk d < rk h \<Longrightarrow> release_ok rk d"
    and w: "well_formed own rk (dn(h := unat i)) s"
    and H: "handles s h = Some H" and z: "ref_count H = 0"
    and le: "i \<le> num_of_dependencies H"
  shows "\<exists>n s'. dec_ref_loop n h i s = Some (Inr s')
           \<and> well_formed own rk (dn(h := unat (num_of_dependencies H))) s'
           \<and> (\<forall>y. rk h \<le> rk y \<longrightarrow> untouched s s' y)"
  using w H le
proof (induction "unat (num_of_dependencies H) - unat i" arbitrary: i s)
  case 0
  from 0(1) 0(4) have e: "i = num_of_dependencies H"
    by (simp add: word_le_nat_alt word_unat_eq_iff)
  then have "dec_ref_loop (Suc 0) h i s = Some (Inr s)" using 0(3) by simp
  with 0(2) e show ?case using untouched_refl by blast
next
  case (Suc k)
  note w = Suc.prems(1) and H = Suc.prems(2)
  from Suc.hyps(2) have lt: "i < num_of_dependencies H" by (simp add: word_less_nat_alt)
  note wd = word_succ_facts[OF lt]
  from lt have nz: "num_of_dependencies H \<noteq> 0" by auto
  note o = well_formedD(3)[OF w H]
  note blk = handle_ok_block[OF o H nz]
  let ?seq = "dependency_seq s h"
  have il: "unat i < length ?seq" using blk wd(2) by simp
  have "drop (unat i) ?seq = ?seq ! unat i # drop (Suc (unat i)) ?seq"
    using il by (simp add: Cons_nth_drop_Suc)
  then have "?seq ! unat i \<in> set (active s (dn(h := unat i)) h)"
    by (simp add: active_def)
  with o obtain d where d: "?seq ! unat i = Some d" and dl: "d \<in> dom (handles s)"
    unfolding handle_ok_def by blast
  from il have "?seq ! unat i \<in> set ?seq" by simp
  with o d have rd: "rk d < rk h" unfolding handle_ok_def by auto
  from dl obtain D where D: "handles s d = Some D" by auto
  have w1: "well_formed (own(d := own d + 1)) rk (dn(h := Suc (unat i))) s"
    by (rule well_formed_edge_to_owner[OF w H z il d])
  from IH[OF rd, unfolded release_ok_def, rule_format, OF w1 D]
  obtain n1 s1 where r1: "rclpy_handle_dec_ref n1 d s = Some (Inr s1)"
    and w2: "well_formed ((own(d := own d + 1))(d := (own(d := own d + 1)) d - 1)) rk
               (dn(h := Suc (unat i))) s1"
    and f1: "\<forall>y. y \<noteq> d \<longrightarrow> rk d \<le> rk y \<longrightarrow> untouched s s1 y"
    by auto
  have oe: "(own(d := own d + 1))(d := (own(d := own d + 1)) d - 1) = own" by auto
  have w3: "well_formed own rk (dn(h := unat (i + 1))) s1"
    using w2 unfolding oe wd(1) by simp
  from rd have "h \<noteq> d" by auto
  with f1 rd have uh: "untouched s s1 h" by auto
  with H have H1: "handles s1 h = Some H" by (simp add: untouched_def)
  have le1: "i + 1 \<le> num_of_dependencies H" using lt by (simp add: inc_le)
  have k: "k = unat (num_of_dependencies H) - unat (i + 1)" using Suc.hyps(2) wd(1) by simp
  from Suc.hyps(1)[OF k w3 H1 le1]
  obtain n2 s' where r2: "dec_ref_loop n2 h (i + 1) s1 = Some (Inr s')"
    and w4: "well_formed own rk (dn(h := unat (num_of_dependencies H))) s'"
    and f2: "\<forall>y. rk h \<le> rk y \<longrightarrow> untouched s1 s' y"
    by blast
  let ?n = "max n1 n2"
  have r1': "rclpy_handle_dec_ref ?n d s = Some (Inr s1)"
    by (rule dec_ref_mono_le[OF r1]) simp
  have r2': "dec_ref_loop ?n h (i + 1) s1 = Some (Inr s')"
    by (rule dec_ref_loop_mono_le[OF r2]) simp
  have run: "dec_ref_loop (Suc ?n) h i s = Some (Inr s')"
    using H lt blk il d r1' r2' by simp
  have fr: "\<forall>y. rk h \<le> rk y \<longrightarrow> untouched s s' y"
  proof (intro allI impI)
    fix y assume y: "rk h \<le> rk y"
    with rd have "y \<noteq> d" "rk d \<le> rk y" by auto
    with f1 have "untouched s s1 y" by blast
    moreover from f2 y have "untouched s1 s' y" by blast
    ultimately show "untouched s s' y" by (rule untouched_trans)
  qed
  from run w4 fr show ?case by blast
qed

lemma release_total: "release_ok rk h"
proof (induction "rk h" arbitrary: h rule: less_induct)
  case less
  have IH: "\<And>d. rk d < rk h \<Longrightarrow> release_ok rk d" by (rule less.hyps) simp
  show ?case unfolding release_ok_def
  proof (intro allI impI)
    fix own dn s H
    assume w: "well_formed own rk dn s" and H: "handles s h = Some H" and ow: "1 \<le> own h"
    note o = well_formedD(3)[OF w H]
    from o have nn: "h \<noteq> NULL" and dc: "deps_consistent H"
      and cnt: "own h + incoming s dn h \<le> unat (ref_count H)"
      and dz: "ref_count H \<noteq> 0 \<longrightarrow> dn h = 0"
      by (simp_all add: handle_ok_def)
    from cnt ow have pos: "1 \<le> unat (ref_count H)" by simp
    then have rnz: "ref_count H \<noteq> 0" by auto
    with dz have dn0: "dn h = 0" by simp
    show "\<exists>n s'. rclpy_handle_dec_ref n h s = Some (Inr s') \<and>
           well_formed (own(h := own h - 1)) rk dn s' \<and>
           (\<forall>y. y \<noteq> h \<longrightarrow> rk h \<le> rk y \<longrightarrow> untouched s s' y)"
    proof (cases "ref_count H = 1")
      case False
      have two: "2 \<le> unat (ref_count H)"
      proof -
        have "unat (ref_count H) \<noteq> 1" using False by (metis unat_1 word_unat_eq_iff)
        with pos show ?thesis by simp
      qed
      note m = unat_minus_one_ge2[OF two]
      let ?s' = "s\<lparr>handles := (handles s)(h \<mapsto> H\<lparr>ref_count := ref_count H - 1\<rparr>)\<rparr>"
      have run: "rclpy_handle_dec_ref (Suc 0) h s = Some (Inr ?s')"
        using nn H dc m by (simp add: Let_def)
      have w': "well_formed (own(h := own h - 1)) rk dn ?s'"
        by (rule well_formed_update_count[OF w H, where c = "ref_count H - 1"])
          (use cnt ow m dn0 in simp_all)
      have fr: "\<forall>y. y \<noteq> h \<longrightarrow> rk h \<le> rk y \<longrightarrow> untouched s ?s' y"
        by (simp add: untouched_def)
      from run w' fr show ?thesis by blast
    next
      case True
      with cnt ow have own1: "own h = 1" and inz: "incoming s dn h = 0" by simp_all
      let ?H0 = "H\<lparr>ref_count := 0\<rparr>"
      let ?s1 = "begin_teardown h H s"
      have hs1: "handles ?s1 = (handles s)(h \<mapsto> ?H0)" and ar1: "arrays ?s1 = arrays s"
        by (simp_all add: begin_teardown_def call_destructor_def)
      have w1: "well_formed (own(h := 0)) rk dn ?s1"
        by (rule well_formed_update_count[OF w H hs1 ar1]) (use inz in simp_all)
      have dne: "dn = dn(h := unat (0 :: size_t))" using dn0 by auto
      have w1': "well_formed (own(h := 0)) rk (dn(h := unat (0 :: size_t))) ?s1"
        using w1 dne by simp
      have H1: "handles ?s1 h = Some ?H0" by (simp add: hs1)
      from loop_total[OF IH w1' H1] obtain n s3 where
        loop: "dec_ref_loop n h 0 ?s1 = Some (Inr s3)"
        and w3: "well_formed (own(h := 0)) rk (dn(h := unat (num_of_dependencies H))) s3"
        and f3: "\<forall>y. rk h \<le> rk y \<longrightarrow> untouched ?s1 s3 y"
        by auto
      from f3 have "untouched ?s1 s3 h" by simp
      with H1 have H3: "handles s3 h = Some ?H0" by (simp add: untouched_def)
      note o3 = well_formedD(3)[OF w3 H3]
      have arr3: "dependencies H \<noteq> NULL \<longrightarrow> arrays s3 (dependencies H) \<noteq> None"
        using o3 by (auto simp: handle_ok_def)
      let ?s4 = "s3\<lparr>arrays := (if dependencies H = NULL then arrays s3
                          else (arrays s3)(dependencies H := None)),
                    trace := trace s3 @ [Deallocate (dependencies H)]\<rparr>"
      let ?s' = "?s4\<lparr>handles := (handles s3)(h := None),
                    trace := trace s3 @ [Deallocate (dependencies H), Deallocate h]\<rparr>"
      have da: "deallocate_array (dependencies ?H0) s3 = Inr ?s4"
        using arr3 by (auto simp: deallocate_array_def)
      have dh: "deallocate_handle h ?s4 = Inr ?s'"
        using nn H3 by (simp add: deallocate_handle_def)
      have run: "rclpy_handle_dec_ref (Suc n) h s = Some (Inr ?s')"
        using nn H dc True loop H3 da dh
        by (simp add: Let_def begin_teardown_def)
      have len3: "(dn(h := unat (num_of_dependencies H))) h = length (dependency_seq s3 h)"
        using handle_ok_seq[OF o3 H3] by simp
      have w5: "well_formed (own(h := 0)) rk (dn(h := unat (num_of_dependencies H))) ?s'"
        by (rule well_formed_remove[OF w3 H3 _ len3]) simp_all
      have w6: "well_formed (own(h := 0)) rk dn ?s'"
        by (rule well_formed_dn_cong[OF w5]) auto
      have w7: "well_formed (own(h := own h - 1)) rk dn ?s'"
        using w6 own1 by simp
      have fr: "\<forall>y. y \<noteq> h \<longrightarrow> rk h \<le> rk y \<longrightarrow> untouched s ?s' y"
      proof (intro allI impI)
        fix y assume ne: "y \<noteq> h" and rk: "rk h \<le> rk y"
        have a: "untouched s ?s1 y" using ne by (simp add: untouched_def hs1 ar1)
        from f3 rk have b: "untouched ?s1 s3 y" by blast
        have c: "untouched s3 ?s' y"
          unfolding untouched_def
        proof (intro conjI allI impI)
          show "handles ?s' y = handles s3 y" using ne by simp
          fix Y assume Y: "handles s3 y = Some Y" and dY: "dependencies Y \<noteq> NULL"
          from well_formedD(2)[OF w3] Y H3 ne dY have "dependencies Y \<noteq> dependencies ?H0"
            unfolding unshared_def by blast
          then show "arrays ?s' (dependencies Y) = arrays s3 (dependencies Y)" by simp
        qed
        from untouched_trans[OF untouched_trans[OF a b] c] show "untouched s ?s' y" .
      qed
      from run w7 fr show ?thesis by blast
    qed
  qed
qed

lemma linked_well_formed: "well_formed linked_owners linked_rank (\<lambda>x. 0) linked_handles"
proof -
  have dm: "dom (handles linked_handles) = {100, 200}"
    by (auto simp: linked_handles_def)
  have sq: "dependency_seq linked_handles x = (if x = 100 then [Some 200] else [])" for x
    by (simp add: dependency_seq_def linked_handles_def)
  have inc: "incoming linked_handles (\<lambda>x. 0) y = (if y = 200 then 1 else 0)" for y
    by (simp add: incoming_def dm active_def sq)
  have us: "unshared linked_handles"
    by (auto simp: unshared_def linked_handles_def split: if_splits)
  have ok: "handle_ok linked_owners linked_rank (\<lambda>x. 0) linked_handles x X"
    if "handles linked_handles x = Some X" for x X
  proof -
    from that have X: "x = 100 \<and> X = \<lparr>ptr = 7, ref_count = 1, dependencies = 300,
           num_of_dependencies = 1, destructor = 9\<rparr>
         \<or> x = 200 \<and> X = \<lparr>ptr = 8, ref_count = 2, dependencies = NULL,
           num_of_dependencies = 0, destructor = 9\<rparr>"
      by (auto simp: linked_handles_def split: if_splits)
    have ar: "arrays linked_handles 300 = Some [Some 200]"
      by (simp add: linked_handles_def)
    from X show ?thesis
      by (auto simp: handle_ok_def inc sq active_def dm linked_owners_def linked_rank_def
          deps_consistent_def ar)
  qed
  from dm us ok show ?thesis by (simp add: well_formed_def)
qed

subsection \<open>The operations build well-formed stores\<close>

text \<open>
  The empty store is well-formed. \<open>create\<close> at a fresh address keeps a store
  well-formed, the new handle having one owner. \<open>add_dependency\<close> keeps it well-formed
  when the dependency ranks below the dependent, neither is being torn down, the array
  address the allocator answers is not the array of another handle, and neither the size
  of the array nor the count of the dependency overflows. With \<open>release_total\<close> the three
  operations of the file stay inside the well-formed stores.
\<close>

lemma well_formed_empty: "well_formed own rk dn empty_memory"
  by (simp add: well_formed_def unshared_def empty_memory_def)

lemma incoming_fresh:
  assumes w: "well_formed own rk dn s" and fresh: "handles s a = None"
  shows "incoming s dn a = 0"
proof -
  have "count_list (active s dn h) (Some a) = 0" if h: "h \<in> dom (handles s)" for h
  proof -
    from h obtain H where H: "handles s h = Some H" by auto
    have "Some a \<notin> set (active s dn h)"
    proof
      assume "Some a \<in> set (active s dn h)"
      with well_formedD(3)[OF w H] have "a \<in> dom (handles s)"
        unfolding handle_ok_def by blast
      with fresh show False by auto
    qed
    then show ?thesis by (simp add: count_list_0_iff)
  qed
  then show ?thesis unfolding incoming_def by simp
qed

lemma create_well_formed:
  assumes w: "well_formed own rk dn s"
    and nn: "p \<noteq> NULL" "d \<noteq> NULL" "a \<noteq> NULL"
    and fresh: "handles s a = None"
  shows "\<exists>s'. rclpy_create_handle a p d s = Inr (a, s')
           \<and> well_formed (own(a := 1)) rk (dn(a := 0)) s'"
proof -
  let ?A = "\<lparr>ptr = p, ref_count = 1 :: size_t, dependencies = NULL,
             num_of_dependencies = 0 :: size_t, destructor = d\<rparr>"
  let ?s' = "s\<lparr>handles := (handles s)(a \<mapsto> ?A)\<rparr>"
  note fin = well_formedD(1)[OF w]
  from fresh have an: "a \<notin> dom (handles s)" by auto
  have dm: "dom (handles ?s') = insert a (dom (handles s))" by simp
  have sq: "dependency_seq ?s' y = (if y = a then [] else dependency_seq s y)" for y
    by (auto simp: dependency_seq_def split: option.splits)
  have ac: "active ?s' (dn(a := 0)) y = (if y = a then [] else active s dn y)" for y
    by (simp add: active_def sq)
  have inc: "incoming ?s' (dn(a := 0)) y = incoming s dn y" for y
  proof -
    have "incoming ?s' (dn(a := 0)) y =
        (\<Sum>h \<in> dom (handles s). count_list (active ?s' (dn(a := 0)) h) (Some y))"
      unfolding incoming_def dm using fin an by (simp add: ac)
    also have "\<dots> = incoming s dn y"
      unfolding incoming_def by (rule sum.cong) (use an in \<open>auto simp: ac\<close>)
    finally show ?thesis .
  qed
  have ok: "handle_ok (own(a := 1)) rk (dn(a := 0)) ?s' y Y"
    if Y': "handles ?s' y = Some Y" for y Y
  proof (cases "y = a")
    case True
    with Y' have "Y = ?A" by simp
    then show ?thesis
      using True nn incoming_fresh[OF w fresh]
      by (simp add: handle_ok_def deps_consistent_def sq ac inc)
  next
    case False
    with Y' have Y: "handles s y = Some Y" by simp
    note o = well_formedD(3)[OF w Y]
    have tg: "\<forall>e \<in> set (active s dn y). \<exists>d. e = Some d \<and> d \<in> dom (handles ?s')"
      using o unfolding handle_ok_def dm by blast
    from o tg False show ?thesis
      unfolding handle_ok_def by (simp add: sq ac inc)
  qed
  have us: "unshared ?s'"
    using well_formedD(2)[OF w] unfolding unshared_def by (auto split: if_splits)
  have "rclpy_create_handle a p d s = Inr (a, ?s')" by (rule create_success[OF nn])
  moreover have "well_formed (own(a := 1)) rk (dn(a := 0)) ?s'"
    using fin ok us by (simp add: well_formed_def)
  ultimately show ?thesis by blast
qed

lemma add_dependency_well_formed:
  assumes w: "well_formed own rk dn s"
    and D: "handles s dependent = Some D" and Y: "handles s dependency = Some Y"
    and rk: "rk dependency < rk dependent"
    and lv: "ref_count D \<noteq> 0" and lvY: "ref_count Y \<noteq> 0"
    and a: "answer \<noteq> NULL"
    and fresh: "\<And>y Y'. handles s y = Some Y' \<Longrightarrow> y \<noteq> dependent \<Longrightarrow> dependencies Y' \<noteq> answer"
    and size: "8 * (unat (num_of_dependencies D) + 1) < 2 ^ 64"
    and room: "unat (ref_count Y) + 1 < 2 ^ 64"
  shows "\<exists>s'. rclpy_handle_add_dependency answer dependent dependency s = Inr (RCUTILS_RET_OK, s')
           \<and> well_formed own rk dn s'"
proof -
  note fin = well_formedD(1)[OF w] and us = well_formedD(2)[OF w]
  note oD = well_formedD(3)[OF w D] and oY = well_formedD(3)[OF w Y]
  from rk have ne: "dependency \<noteq> dependent" by auto
  from oD oY have nn: "dependent \<noteq> NULL" "dependency \<noteq> NULL" by (simp_all add: handle_ok_def)
  from oD lv have dn0: "dn dependent = 0" by (simp add: handle_ok_def)
  define blk where "blk = dependency_seq s dependent"
  have blk: "if dependencies D = NULL then blk = [] else arrays s (dependencies D) = Some blk"
    using oD D by (auto simp: blk_def handle_ok_def dependency_seq_def)
  have len: "length blk = unat (num_of_dependencies D)"
    unfolding blk_def by (rule handle_ok_seq[OF oD D])
  note sz = size_no_wrap[OF size]
  define s' where "s' = added answer dependent dependency D blk s"
  let ?D' = "D\<lparr>num_of_dependencies := num_of_dependencies D + 1, dependencies := answer\<rparr>"
  let ?Y' = "Y\<lparr>ref_count := ref_count Y + 1\<rparr>"
  have run: "rclpy_handle_add_dependency answer dependent dependency s = Inr (RCUTILS_RET_OK, s')"
    unfolding s'_def by (rule add_dependency_success[OF nn a D Y blk len size])
  have hs: "handles s' = (handles s)(dependent \<mapsto> ?D', dependency \<mapsto> ?Y')"
    using ne Y by (simp add: s'_def added_def Let_def)
  have ar: "arrays s' = (if dependencies D = NULL then arrays s
                          else (arrays s)(dependencies D := None))(answer \<mapsto> blk @ [Some dependency])"
    by (simp add: s'_def added_def Let_def)
  have dm: "dom (handles s') = dom (handles s)" using D Y unfolding hs by auto
  have keep: "arrays s' (dependencies Z) = arrays s (dependencies Z)"
    if Z: "handles s z = Some Z" and zn: "z \<noteq> dependent" and dz: "dependencies Z \<noteq> NULL"
    for z Z
  proof -
    from fresh[OF Z zn] have 1: "dependencies Z \<noteq> answer" .
    from us Z D zn dz have 2: "dependencies Z \<noteq> dependencies D" unfolding unshared_def by blast
    from 1 2 show ?thesis unfolding ar by simp
  qed
  have sqD: "dependency_seq s' dependent = blk @ [Some dependency]"
    unfolding s'_def blk_def
    by (rule dependency_seq_added[OF a D blk[unfolded blk_def] len[unfolded blk_def] size])
  have sqO: "dependency_seq s' z = dependency_seq s z" if zn: "z \<noteq> dependent" for z
  proof (cases "handles s z")
    case None
    with Y have "z \<noteq> dependency" by auto
    with None zn show ?thesis unfolding dependency_seq_def hs by simp
  next
    case (Some Z)
    show ?thesis
    proof (cases "z = dependency")
      case True
      with Some Y have zy: "Z = Y" by simp
      have h': "handles s' z = Some (Z\<lparr>ref_count := ref_count Y + 1\<rparr>)"
        using True zy unfolding hs by simp
      show ?thesis by (rule dependency_seq_cong[OF Some h' keep[OF Some zn]])
    next
      case False
      have h': "handles s' z = Some (Z\<lparr>ref_count := ref_count Z\<rparr>)"
        using False zn Some unfolding hs by simp
      show ?thesis by (rule dependency_seq_cong[OF Some h' keep[OF Some zn]])
    qed
  qed
  have acD: "active s' dn dependent = active s dn dependent @ [Some dependency]"
    using dn0 by (simp add: active_def sqD blk_def)
  have acO: "active s' dn z = active s dn z" if "z \<noteq> dependent" for z
    using that by (simp add: active_def sqO)
  have inc: "incoming s' dn y = incoming s dn y + (if y = dependency then 1 else 0)" for y
  proof -
    let ?f = "\<lambda>s x. count_list (active s dn x) (Some y)"
    from D have hd: "dependent \<in> dom (handles s)" by auto
    have "incoming s' dn y = ?f s' dependent + sum (?f s') (dom (handles s) - {dependent})"
      unfolding incoming_def dm by (rule sum.remove[OF fin hd])
    also have "sum (?f s') (dom (handles s) - {dependent}) =
               sum (?f s) (dom (handles s) - {dependent})"
      by (rule sum.cong) (simp_all add: acO)
    also have "?f s' dependent = ?f s dependent + (if y = dependency then 1 else 0)"
      by (simp add: acD)
    finally have "incoming s' dn y = (?f s dependent + sum (?f s) (dom (handles s) - {dependent}))
                    + (if y = dependency then 1 else 0)" by simp
    then show ?thesis unfolding incoming_def using sum.remove[OF fin hd, of "?f s"] by simp
  qed
  have ok: "handle_ok own rk dn s' z Z'" if Z': "handles s' z = Some Z'" for z Z'
  proof -
    consider (dependent) "z = dependent" | (dependency) "z = dependency" "z \<noteq> dependent"
      | (other) "z \<noteq> dependent" "z \<noteq> dependency" by blast
    then show ?thesis
    proof cases
      case dependent
      with Z' have e: "Z' = ?D'" unfolding hs using ne by simp
      have c: "deps_consistent ?D'" using a sz(4) by (simp add: deps_consistent_def)
      have arr: "arrays s' answer = Some (blk @ [Some dependency])" unfolding ar by simp
      have rks: "\<forall>e \<in> set (blk @ [Some dependency]). \<exists>d. e = Some d \<and> rk d < rk dependent"
        using oD rk unfolding handle_ok_def blk_def by auto
      have tg: "\<forall>e \<in> set (active s dn dependent @ [Some dependency]).
                  \<exists>d. e = Some d \<and> d \<in> dom (handles s)"
        using oD Y unfolding handle_ok_def by auto
      from oD c arr rks tg nn a sz len ne show ?thesis
        unfolding handle_ok_def e dependent
        by (simp add: sqD acD inc dm)
    next
      case dependency
      with Z' have e: "Z' = ?Y'" unfolding hs by simp
      have u: "unat (ref_count Y + 1) = unat (ref_count Y) + 1"
        using room unat_add_lem[of "ref_count Y" 1] by simp
      have k: "dependencies Y \<noteq> NULL \<Longrightarrow> arrays s' (dependencies Y) = arrays s (dependencies Y)"
        using keep[OF Y ne] by simp
      have nz: "ref_count Y + 1 \<noteq> 0" using u by (metis Suc_eq_plus1 nat.distinct(1) unat_0)
      from oY lvY have z0: "dn dependency = 0" by (simp add: handle_ok_def)
      from oY u k z0 show ?thesis
        unfolding handle_ok_def e dependency(1)
        by (simp add: sqO[OF ne] acO[OF ne] inc dm)
    next
      case other
      with Z' have Z: "handles s z = Some Z'" unfolding hs by simp
      note o = well_formedD(3)[OF w Z]
      have k: "dependencies Z' \<noteq> NULL \<Longrightarrow> arrays s' (dependencies Z') = arrays s (dependencies Z')"
        using keep[OF Z other(1)] by simp
      from o k other show ?thesis
        unfolding handle_ok_def
        by (simp add: sqO acO inc dm)
    qed
  qed
  have us': "unshared s'"
    unfolding unshared_def
  proof (intro allI impI)
    fix x x' X X'
    assume X: "handles s' x = Some X" and X': "handles s' x' = Some X'"
      and xn: "x \<noteq> x'" and dX: "dependencies X \<noteq> NULL"
    have fld: "\<exists>Z. handles s z = Some Z \<and>
             (z \<noteq> dependent \<longrightarrow> dependencies Z' = dependencies Z) \<and>
             (z = dependent \<longrightarrow> dependencies Z' = answer)"
      if "handles s' z = Some Z'" for z Z'
      using that D Y ne unfolding hs by (auto split: if_splits)
    from fld[OF X] obtain Z where Z: "handles s x = Some Z"
      "x \<noteq> dependent \<longrightarrow> dependencies X = dependencies Z"
      "x = dependent \<longrightarrow> dependencies X = answer" by blast
    from fld[OF X'] obtain Z' where Z': "handles s x' = Some Z'"
      "x' \<noteq> dependent \<longrightarrow> dependencies X' = dependencies Z'"
      "x' = dependent \<longrightarrow> dependencies X' = answer" by blast
    show "dependencies X \<noteq> dependencies X'"
    proof (cases "x = dependent")
      case True
      with xn have "x' \<noteq> dependent" by simp
      with fresh[OF Z'(1)] Z'(2) Z(3) True show ?thesis by simp
    next
      case xd: False
      show ?thesis
      proof (cases "x' = dependent")
        case True
        with fresh[OF Z(1) xd] Z(2) Z'(3) xd show ?thesis by simp
      next
        case False
        with us Z Z' xn dX xd show ?thesis unfolding unshared_def by auto
      qed
    qed
  qed
  from fin dm ok us' have "well_formed own rk dn s'" by (simp add: well_formed_def)
  with run show ?thesis by blast
qed

text \<open>
  C1. In a well-formed store, let \<open>h\<close> be a handle with a destructor whose
  \<open>ref_count\<close> is 1, the one reference being held by an owner outside the graph or by
  the entry of a dependent that is being torn down and is about to give it back. Then
  \<open>release\<close> returns normally with enough fuel, the store it leaves is well-formed again,
  and this is what it has done: first the count is written back as 0 and the destructor
  is called with the resource, once, in a store where nothing else has changed yet (no
  dependency has been released); from that store the entries of the dependency sequence
  are released one after the other, in order; the handle and its array are still
  allocated when the last of them returns, so no nested release has torn the handle down
  a second time; only then the array and the record are deallocated, in this order. The
  log of the call is the destructor call, then what the releases of the dependencies
  logged, then the two deallocations.
\<close>

theorem teardown_order:
  assumes w: "well_formed own rk dn s"
    and H: "handles s h = Some H" and ow: "1 \<le> own h"
    and one: "ref_count H = 1" and ds: "destructor H \<noteq> NULL"
  shows "\<exists>n s'. (\<forall>m. n \<le> m \<longrightarrow> rclpy_handle_dec_ref m h s = Some (Inr s'))
      \<and> well_formed (own(h := 0)) rk dn s'
      \<and> (\<exists>s1 s2 t.
        s1 = s\<lparr>handles := (handles s)(h \<mapsto> H\<lparr>ref_count := 0\<rparr>),
               trace := trace s @ [Destructor_call (destructor H) (ptr H)]\<rparr>
        \<and> None \<notin> set (dependency_seq s h)
        \<and> length (dependency_seq s h) = unat (num_of_dependencies H)
        \<and> release_each n (map the (dependency_seq s h)) s1 = Some (Inr s2)
        \<and> trace s2 = trace s1 @ t
        \<and> handles s2 h \<noteq> None
        \<and> (dependencies H \<noteq> NULL \<longrightarrow> arrays s2 (dependencies H) \<noteq> None)
        \<and> handles s' = (handles s2)(h := None)
        \<and> arrays s' = (if dependencies H = NULL then arrays s2
                        else (arrays s2)(dependencies H := None))
        \<and> trace s' = trace s @ [Destructor_call (destructor H) (ptr H)] @ t
                        @ [Deallocate (dependencies H), Deallocate h])"
proof -
  from release_total[of rk h, unfolded release_ok_def, rule_format, OF w H ow]
  obtain n s' where run: "rclpy_handle_dec_ref n h s = Some (Inr s')"
    and w': "well_formed (own(h := own h - 1)) rk dn s'"
    by blast
  have "own h + incoming s dn h \<le> unat (ref_count H)"
    using well_formedD(3)[OF w H] by (simp add: handle_ok_def)
  with ow one have "own h = 1" by simp
  with w' have w'': "well_formed (own(h := 0)) rk dn s'" by simp
  have nn: "h \<noteq> NULL" using well_formedD(3)[OF w H] by (simp add: handle_ok_def)
  have mono: "\<forall>m. n \<le> m \<longrightarrow> rclpy_handle_dec_ref m h s = Some (Inr s')"
    using dec_ref_mono_le[OF run] by blast
  from mono w'' teardown_steps[OF run nn H one ds] show ?thesis by blast
qed

theorem teardown_order_witness:
  "\<exists>n. (\<forall>m. n \<le> m \<longrightarrow> rclpy_handle_dec_ref m 100 linked_handles = Some (Inr released_dependent))
      \<and> well_formed (linked_owners(100 := 0)) linked_rank (\<lambda>x. 0) released_dependent
      \<and> (\<exists>s2 t.
         dependency_seq linked_handles 100 = [Some 200]
       \<and> release_each n [200]
           (linked_handles\<lparr>handles := (handles linked_handles)(100 \<mapsto>
               \<lparr>ptr = 7, ref_count = 0, dependencies = 300,
                num_of_dependencies = 1, destructor = 9\<rparr>),
             trace := [Destructor_call 9 7]\<rparr>) = Some (Inr s2)
       \<and> handles s2 100 \<noteq> None \<and> arrays s2 300 \<noteq> None
       \<and> trace released_dependent = [Destructor_call 9 7] @ t @ [Deallocate 300, Deallocate 100])"
proof -
  have H: "handles linked_handles 100 = Some \<lparr>ptr = 7, ref_count = 1, dependencies = 300,
       num_of_dependencies = 1, destructor = 9\<rparr>"
    by (simp add: linked_handles_def)
  have q: "dependency_seq linked_handles 100 = [Some 200]"
    by (simp add: dependency_seq_def linked_handles_def)
  have t0: "trace linked_handles = []" by (simp add: linked_handles_def)
  have ow: "1 \<le> linked_owners 100" by (simp add: linked_owners_def)
  from teardown_order[OF linked_well_formed H ow]
  obtain n s' where
    a: "\<forall>m. n \<le> m \<longrightarrow> rclpy_handle_dec_ref m 100 linked_handles = Some (Inr s')"
    and b: "well_formed (linked_owners(100 := 0)) linked_rank (\<lambda>x. 0) s'"
    and c: "\<exists>s2 t. release_each n [200]
           (linked_handles\<lparr>handles := (handles linked_handles)(100 \<mapsto>
               \<lparr>ptr = 7, ref_count = 0, dependencies = 300,
                num_of_dependencies = 1, destructor = 9\<rparr>),
             trace := [Destructor_call 9 7]\<rparr>) = Some (Inr s2)
       \<and> handles s2 100 \<noteq> None \<and> arrays s2 300 \<noteq> None
       \<and> trace s' = [Destructor_call 9 7] @ t @ [Deallocate 300, Deallocate 100]"
    by (auto simp: q t0)
  from a have "rclpy_handle_dec_ref (max n (Suc (Suc (Suc 0)))) 100 linked_handles = Some (Inr s')"
    by simp
  moreover have "rclpy_handle_dec_ref (max n (Suc (Suc (Suc 0)))) 100 linked_handles =
      Some (Inr released_dependent)"
    by (rule dec_ref_mono_le[OF linked_release]) simp
  ultimately have "s' = released_dependent" by simp
  with a b c q show ?thesis by blast
qed

section \<open>The diamond\<close>

lemmas diamond_defs = empty_memory_def diamond_a_def diamond_ab_def diamond_abc_def diamond_ac_def
  diamond_linked_def diamond_after_a_def diamond_after_ab_def diamond_after_abc_def

lemma diamond_build:
  "rclpy_create_handle 100 7 17 empty_memory = Inr (100, diamond_a)"
  "rclpy_create_handle 200 8 18 diamond_a = Inr (200, diamond_ab)"
  "rclpy_create_handle 300 9 19 diamond_ab = Inr (300, diamond_abc)"
  "rclpy_handle_add_dependency 400 100 300 diamond_abc = Inr (RCUTILS_RET_OK, diamond_ac)"
  "rclpy_handle_add_dependency 500 200 300 diamond_ac = Inr (RCUTILS_RET_OK, diamond_linked)"
  by (simp_all add: rclpy_create_handle_def zero_allocate_def zero_handle_def
      rclpy_handle_add_dependency_def reallocate_def Let_def diamond_defs fun_upd_twist)

lemma diamond_release_a:
  "rclpy_handle_dec_ref (Suc (Suc (Suc 0))) 100 diamond_linked = Some (Inr diamond_after_a)"
  by (simp add: diamond_defs deps_consistent_def Let_def call_destructor_def
      deallocate_array_def deallocate_handle_def fun_upd_twist)

lemma diamond_release_b:
  "rclpy_handle_dec_ref (Suc (Suc (Suc 0))) 200 diamond_after_a = Some (Inr diamond_after_ab)"
  by (simp add: diamond_defs deps_consistent_def Let_def call_destructor_def
      deallocate_array_def deallocate_handle_def fun_upd_twist)

lemma diamond_release_c:
  "rclpy_handle_dec_ref (Suc (Suc (Suc 0))) 300 diamond_after_ab = Some (Inr diamond_after_abc)"
  by (simp add: diamond_defs deps_consistent_def Let_def call_destructor_def
      deallocate_array_def deallocate_handle_def fun_upd_twist)

text \<open>
  C3, as the claim states it, fails: after \<open>create\<close> of A, B, C, \<open>add_dependency(A, C)\<close>,
  \<open>add_dependency(B, C)\<close>, \<open>release(A)\<close> and \<open>release(B)\<close>, the count of C is 1, not 0,
  and the destructor of C has not been called: C still holds the reference it was created
  with.
\<close>

theorem diamond_counterexample:
  "rclpy_create_handle 100 7 17 empty_memory = Inr (100, diamond_a)
   \<and> rclpy_create_handle 200 8 18 diamond_a = Inr (200, diamond_ab)
   \<and> rclpy_create_handle 300 9 19 diamond_ab = Inr (300, diamond_abc)
   \<and> rclpy_handle_add_dependency 400 100 300 diamond_abc = Inr (RCUTILS_RET_OK, diamond_ac)
   \<and> rclpy_handle_add_dependency 500 200 300 diamond_ac = Inr (RCUTILS_RET_OK, diamond_linked)
   \<and> rclpy_handle_dec_ref (Suc (Suc (Suc 0))) 100 diamond_linked = Some (Inr diamond_after_a)
   \<and> rclpy_handle_dec_ref (Suc (Suc (Suc 0))) 200 diamond_after_a = Some (Inr diamond_after_ab)
   \<and> map_option ref_count (handles diamond_after_ab 300) = Some 1
   \<and> map_option ref_count (handles diamond_after_ab 300) \<noteq> Some 0
   \<and> Destructor_call 19 9 \<notin> set (trace diamond_after_ab)"
  using diamond_build diamond_release_a diamond_release_b
  by (simp add: diamond_after_ab_def)

text \<open>
  C3, amended. After creating A, B, C and adding the dependencies A to C and B to C (any
  non-null resources and destructors, any distinct addresses, any store to start from,
  any fuel from 3 on): \<open>release(A)\<close> calls \<open>D_a\<close> and leaves C allocated with count 2;
  \<open>release(B)\<close> then calls \<open>D_b\<close> and leaves C allocated with count 1; the release of C's
  own reference then brings its count to 0 and calls \<open>D_c\<close>. The log shows each of the
  three destructors called once, \<open>D_c\<close> after \<open>D_a\<close> and \<open>D_b\<close>.
\<close>

theorem diamond_release:
  assumes res: "ra \<noteq> NULL" "rb \<noteq> NULL" "rc \<noteq> NULL"
    and des: "da \<noteq> NULL" "db \<noteq> NULL" "dc \<noteq> NULL"
    and ads: "a \<noteq> NULL" "b \<noteq> NULL" "c \<noteq> NULL" "a \<noteq> b" "a \<noteq> c" "b \<noteq> c"
    and ars: "xa \<noteq> NULL" "xb \<noteq> NULL" "xa \<noteq> xb"
  shows "\<exists>s1 s2 s3 s4 s5 s6 s7 s8.
       rclpy_create_handle a ra da s0 = Inr (a, s1)
     \<and> rclpy_create_handle b rb db s1 = Inr (b, s2)
     \<and> rclpy_create_handle c rc dc s2 = Inr (c, s3)
     \<and> rclpy_handle_add_dependency xa a c s3 = Inr (RCUTILS_RET_OK, s4)
     \<and> rclpy_handle_add_dependency xb b c s4 = Inr (RCUTILS_RET_OK, s5)
     \<and> rclpy_handle_dec_ref (Suc (Suc (Suc n))) a s5 = Some (Inr s6)
     \<and> trace s6 = trace s0 @ [Destructor_call da ra, Deallocate xa, Deallocate a]
     \<and> map_option ref_count (handles s6 c) = Some 2
     \<and> rclpy_handle_dec_ref (Suc (Suc (Suc n))) b s6 = Some (Inr s7)
     \<and> trace s7 = trace s6 @ [Destructor_call db rb, Deallocate xb, Deallocate b]
     \<and> map_option ref_count (handles s7 c) = Some 1
     \<and> rclpy_handle_dec_ref (Suc (Suc (Suc n))) c s7 = Some (Inr s8)
     \<and> trace s8 = trace s7 @ [Destructor_call dc rc, Deallocate NULL, Deallocate c]
     \<and> handles s8 c = None"
proof -
  let ?A = "\<lparr>ptr = ra, ref_count = 1 :: size_t, dependencies = NULL,
             num_of_dependencies = 0 :: size_t, destructor = da\<rparr>"
  let ?B = "\<lparr>ptr = rb, ref_count = 1 :: size_t, dependencies = NULL,
             num_of_dependencies = 0 :: size_t, destructor = db\<rparr>"
  let ?C = "\<lparr>ptr = rc, ref_count = 1 :: size_t, dependencies = NULL,
             num_of_dependencies = 0 :: size_t, destructor = dc\<rparr>"
  define s1 where "s1 = s0\<lparr>handles := (handles s0)(a \<mapsto> ?A)\<rparr>"
  define s2 where "s2 = s1\<lparr>handles := (handles s1)(b \<mapsto> ?B)\<rparr>"
  define s3 where "s3 = s2\<lparr>handles := (handles s2)(c \<mapsto> ?C)\<rparr>"
  define s4 where "s4 = added xa a c ?A [] s3"
  define s5 where "s5 = added xb b c ?B [] s4"
  have c1: "rclpy_create_handle a ra da s0 = Inr (a, s1)"
    unfolding s1_def by (rule create_success[OF res(1) des(1) ads(1)])
  have c2: "rclpy_create_handle b rb db s1 = Inr (b, s2)"
    unfolding s2_def by (rule create_success[OF res(2) des(2) ads(2)])
  have c3: "rclpy_create_handle c rc dc s2 = Inr (c, s3)"
    unfolding s3_def by (rule create_success[OF res(3) des(3) ads(3)])
  have sz: "8 * (unat (0 :: size_t) + 1) < (2 :: nat) ^ 64" by simp
  have a1: "rclpy_handle_add_dependency xa a c s3 = Inr (RCUTILS_RET_OK, s4)"
    unfolding s4_def
    by (rule add_dependency_success[where Y = ?C])
      (use ads ars sz in \<open>simp_all add: s3_def s2_def s1_def\<close>)
  have a2: "rclpy_handle_add_dependency xb b c s4 = Inr (RCUTILS_RET_OK, s5)"
    unfolding s5_def
    by (rule add_dependency_success[where Y = "?C\<lparr>ref_count := 2\<rparr>"])
      (use ads ars sz in \<open>simp_all add: s4_def added_def Let_def s3_def s2_def s1_def\<close>)
  have h5: "handles s5 = (handles s0)(a \<mapsto> ?A\<lparr>num_of_dependencies := 1, dependencies := xa\<rparr>,
       b \<mapsto> ?B\<lparr>num_of_dependencies := 1, dependencies := xb\<rparr>,
       c \<mapsto> ?C\<lparr>ref_count := 3\<rparr>)"
    using ads by (auto simp: s5_def s4_def added_def Let_def s3_def s2_def s1_def)
  have r5: "arrays s5 = (arrays s0)(xa \<mapsto> [Some c], xb \<mapsto> [Some c])"
    by (simp add: s5_def s4_def added_def Let_def s3_def s2_def s1_def)
  have t5: "trace s5 = trace s0"
    by (simp add: s5_def s4_def added_def Let_def s3_def s2_def s1_def)
  define s6 where "s6 = s5\<lparr>handles := (handles s0)(a := None,
       b \<mapsto> ?B\<lparr>num_of_dependencies := 1, dependencies := xb\<rparr>,
       c \<mapsto> ?C\<lparr>ref_count := 2\<rparr>),
     arrays := (arrays s0)(xa := None, xb \<mapsto> [Some c]),
     trace := trace s0 @ [Destructor_call da ra, Deallocate xa, Deallocate a]\<rparr>"
  have d1: "rclpy_handle_dec_ref (Suc (Suc (Suc n))) a s5 = Some (Inr s6)"
    using ads ars des
    by (simp add: h5 r5 t5 s6_def deps_consistent_def Let_def call_destructor_def
        deallocate_array_def deallocate_handle_def fun_upd_twist)
  define s7 where "s7 = s6\<lparr>handles := (handles s0)(a := None, b := None,
       c \<mapsto> ?C),
     arrays := (arrays s0)(xa := None, xb := None),
     trace := trace s6 @ [Destructor_call db rb, Deallocate xb, Deallocate b]\<rparr>"
  have d2: "rclpy_handle_dec_ref (Suc (Suc (Suc n))) b s6 = Some (Inr s7)"
    using ads ars des
    by (simp add: s6_def s7_def deps_consistent_def Let_def call_destructor_def
        deallocate_array_def deallocate_handle_def fun_upd_twist)
  define s8 where "s8 = s7\<lparr>handles := (handles s0)(a := None, b := None, c := None),
     trace := trace s7 @ [Destructor_call dc rc, Deallocate NULL, Deallocate c]\<rparr>"
  have d3: "rclpy_handle_dec_ref (Suc (Suc (Suc n))) c s7 = Some (Inr s8)"
    using ads ars des
    by (simp add: s7_def s8_def deps_consistent_def Let_def call_destructor_def
        deallocate_array_def deallocate_handle_def fun_upd_twist)
  have q6: "trace s6 = trace s0 @ [Destructor_call da ra, Deallocate xa, Deallocate a]"
    "map_option ref_count (handles s6 c) = Some 2"
    by (simp_all add: s6_def)
  have q7: "trace s7 = trace s6 @ [Destructor_call db rb, Deallocate xb, Deallocate b]"
    "map_option ref_count (handles s7 c) = Some 1"
    by (simp_all add: s7_def)
  have q8: "trace s8 = trace s7 @ [Destructor_call dc rc, Deallocate NULL, Deallocate c]"
    "handles s8 c = None"
    by (simp_all add: s8_def)
  from c1 c2 c3 a1 a2 d1 q6 d2 q7 d3 q8 show ?thesis by blast
qed

theorem diamond_release_witness:
  "\<exists>s1 s2 s3 s4 s5 s6 s7 s8.
       rclpy_create_handle 100 7 17 empty_memory = Inr (100, s1)
     \<and> rclpy_create_handle 200 8 18 s1 = Inr (200, s2)
     \<and> rclpy_create_handle 300 9 19 s2 = Inr (300, s3)
     \<and> rclpy_handle_add_dependency 400 100 300 s3 = Inr (RCUTILS_RET_OK, s4)
     \<and> rclpy_handle_add_dependency 500 200 300 s4 = Inr (RCUTILS_RET_OK, s5)
     \<and> rclpy_handle_dec_ref (Suc (Suc (Suc 0))) 100 s5 = Some (Inr s6)
     \<and> trace s6 = trace empty_memory @ [Destructor_call 17 7, Deallocate 400, Deallocate 100]
     \<and> map_option ref_count (handles s6 300) = Some 2
     \<and> rclpy_handle_dec_ref (Suc (Suc (Suc 0))) 200 s6 = Some (Inr s7)
     \<and> trace s7 = trace s6 @ [Destructor_call 18 8, Deallocate 500, Deallocate 200]
     \<and> map_option ref_count (handles s7 300) = Some 1
     \<and> rclpy_handle_dec_ref (Suc (Suc (Suc 0))) 300 s7 = Some (Inr s8)
     \<and> trace s8 = trace s7 @ [Destructor_call 19 9, Deallocate NULL, Deallocate 300]
     \<and> handles s8 300 = None"
  using diamond_release[where ra = 7 and rb = 8 and rc = 9 and da = 17 and db = 18 and dc = 19
      and a = 100 and b = 200 and c = 300 and xa = 400 and xb = 500 and n = 0
      and ?s0.0 = empty_memory]
  by simp

end
